theory Spec2Isabelle
  imports Complex_Main "HOL-Library.AList" "HOL-Library.Sublist" "HOL-Library.Signed_Division"
    "HOL-Library.Char_ord" "HOL-Library.List_Lexorder"
begin

section \<open>JavaScript values used by the simulator\<close>

text \<open>
  Node ids, epochs and packet counts are non-negative integers (\<open>nat\<close>). Template
  literals such as \<open>`${a}-${b}`\<close> print them in decimal. A JavaScript \<open>Map\<close> or
  \<open>Set\<close> iterates in insertion order and \<open>Map.set\<close> on a present key keeps the key's
  position: a \<open>Map\<close> is an association list updated with \<open>AList.update\<close>, a \<open>Set\<close> is
  a duplicate-free list extended with \<open>set_add\<close>.
\<close>

fun decimal :: "nat \<Rightarrow> string" where
  "decimal n = (if n < 10 then [''0123456789'' ! n]
                else decimal (n div 10) @ [''0123456789'' ! (n mod 10)])"

declare decimal.simps [simp del]

definition set_add :: "'a list \<Rightarrow> 'a \<Rightarrow> 'a list" where
  "set_add xs x = (if x \<in> set xs then xs else xs @ [x])"

definition get_or :: "('k \<times> 'v) list \<Rightarrow> 'k \<Rightarrow> 'v \<Rightarrow> 'v" where
  "get_or m k d = (case map_of m k of None \<Rightarrow> d | Some v \<Rightarrow> v)"

section \<open>AdversaryLP.js: the local-passive adversary\<close>

datatype est_tier = Intimate | Friend | Acquaintance | Weak | Unknown

record guess =
  g_t :: nat
  g_sender :: nat
  guessRecipient :: nat

record adversary =
  observed :: "nat list"
  delta :: nat
  linkCounts :: "(string \<times> nat) list"
  sendEvents :: "(nat \<times> nat list) list"
  guesses :: "guess list"
  contactLog :: "(nat \<times> nat \<times> nat \<times> nat) list"
  recipientHistory :: "(nat \<times> (nat \<times> nat) list) list"
  activityLog :: "(nat \<times> nat list) list"
  estimatedGraph :: "(nat \<times> nat list) list"
  relationshipStrengths :: "(string \<times> real) list"
  relationshipTiers :: "(string \<times> est_tier) list"
  communityStructure :: "(nat \<times> nat) list"
  confidenceScores :: "(string \<times> real) list"

text \<open>The constructor: \<open>new AdversaryLP(observedNodeIds, {delta})\<close>; \<open>opts.delta || 1\<close>.\<close>

definition newAdversary :: "nat list \<Rightarrow> nat \<Rightarrow> adversary" where
  "newAdversary obs d =
     \<lparr> observed = remdups obs, delta = (if d = 0 then 1 else d), linkCounts = [],
       sendEvents = [], guesses = [], contactLog = [], recipientHistory = [],
       activityLog = [], estimatedGraph = [], relationshipStrengths = [],
       relationshipTiers = [], communityStructure = [], confidenceScores = [] \<rparr>"

definition edgeKey :: "nat \<Rightarrow> nat \<Rightarrow> string" where
  "edgeKey a b = (if a < b then decimal a @ ''-'' @ decimal b
                  else decimal b @ ''-'' @ decimal a)"

definition timeKey :: "nat \<Rightarrow> nat \<Rightarrow> nat \<Rightarrow> string" where
  "timeKey a b t = edgeKey a b @ ''-'' @ decimal t"

definition noteContact :: "adversary \<Rightarrow> nat \<Rightarrow> nat \<Rightarrow> nat \<Rightarrow> nat \<Rightarrow> adversary" where
  "noteContact adv t aId bId cnt =
     (if aId \<notin> set (observed adv) \<and> bId \<notin> set (observed adv) then adv
      else
        let tk = timeKey aId bId t;
            active = set_add (set_add (get_or (activityLog adv) t []) aId) bId
        in adv\<lparr> linkCounts := AList.update tk (get_or (linkCounts adv) tk 0 + cnt) (linkCounts adv),
                 contactLog := contactLog adv @ [(t, min aId bId, max aId bId, cnt)],
                 activityLog := AList.update t active (activityLog adv) \<rparr>)"

definition noteSend :: "adversary \<Rightarrow> nat \<Rightarrow> nat \<Rightarrow> adversary" where
  "noteSend adv t senderId =
     adv\<lparr> sendEvents := AList.update t (set_add (get_or (sendEvents adv) t []) senderId)
                             (sendEvents adv) \<rparr>"

definition has_in :: "(nat \<times> nat list) list \<Rightarrow> nat \<Rightarrow> nat \<Rightarrow> bool" where
  "has_in m t x = (x \<in> set (get_or m t []))"

text \<open>\<open>_computeIntersectionScore\<close>: the loop runs over \<open>tt = max(0, t - window) .. t - 1\<close>.\<close>

definition computeIntersectionScore :: "adversary \<Rightarrow> nat \<Rightarrow> nat \<Rightarrow> nat \<Rightarrow> nat \<Rightarrow> real" where
  "computeIntersectionScore adv sender recipient t window =
     (let tts = filter (\<lambda>tt. has_in (sendEvents adv) tt sender) [t - window ..< t];
          senderEvents = length tts;
          overlaps = length (filter (\<lambda>tt. has_in (activityLog adv) tt recipient
                                         \<or> has_in (activityLog adv) (tt + 1) recipient) tts)
      in if senderEvents > 0 then real overlaps / real senderEvents else 0)"

definition sumCountsOverWindow :: "adversary \<Rightarrow> nat \<Rightarrow> nat \<Rightarrow> nat \<Rightarrow> nat \<Rightarrow> nat" where
  "sumCountsOverWindow adv a b t0 dl =
     sum_list (map (\<lambda>tt. get_or (linkCounts adv) (timeKey a b tt) 0) [t0 ..< t0 + dl + 1])"

definition countDirectedTraffic :: "adversary \<Rightarrow> nat \<Rightarrow> nat \<Rightarrow> nat" where
  "countDirectedTraffic adv s r =
     length (filter (\<lambda>g. g_sender g = s \<and> guessRecipient g = r) (guesses adv))"

text \<open>
  \<open>Math.sqrt\<close> is the real square root. It is not computable in general; the code
  equation lets the kernel evaluate it at 0 and at 1 and leaves every other argument
  as it is.
\<close>

definition js_sqrt :: "real \<Rightarrow> real" where
  "js_sqrt x = sqrt x"

declare js_sqrt_def [code del]

lemma js_sqrt_code [code]:
  "js_sqrt x = (if x = 0 then 0 else if x = 1 then 1 else js_sqrt x)"
  by (simp add: js_sqrt_def)

record strength =
  totalVolume :: nat
  coActivityRate :: real
  reciprocity :: real
  consistency :: real
  overallScore :: real

record analysis =
  a_strength :: strength
  a_tier :: est_tier
  a_confidence :: real

text \<open>
  \<open>_analyzeRelationship\<close>: the volume loop keeps every entry of \<open>linkCounts\<close> whose key
  \<open>startsWith\<close> the edge key.
\<close>

definition volumeByEpoch :: "adversary \<Rightarrow> nat \<Rightarrow> nat \<Rightarrow> nat list" where
  "volumeByEpoch adv nodeA nodeB =
     map snd (filter (\<lambda>(tk, c). prefix (edgeKey nodeA nodeB) tk) (linkCounts adv))"

definition analyzeRelationship :: "adversary \<Rightarrow> nat \<Rightarrow> nat \<Rightarrow> analysis" where
  "analyzeRelationship adv nodeA nodeB =
     (let vols = volumeByEpoch adv nodeA nodeB;
          total = sum_list vols;
          totalEpochs = length (activityLog adv);
          coActiveEpochs = length (filter (\<lambda>(ep, nodes). nodeA \<in> set nodes \<and> nodeB \<in> set nodes)
                                     (activityLog adv));
          coRate = (if totalEpochs > 0 then real coActiveEpochs / real totalEpochs else 0);
          aToB = countDirectedTraffic adv nodeA nodeB;
          bToA = countDirectedTraffic adv nodeB nodeA;
          recip = real (min aToB bToA) / (real (max aToB bToA) + 1);
          avgVolume = (if length vols > 0 then real (sum_list vols) / real (length vols) else 0);
          variance = (if length vols > 0
                      then sum_list (map (\<lambda>v. (real v - avgVolume)\<^sup>2) vols) / real (length vols)
                      else 0);
          consist = 1 / (1 + js_sqrt variance);
          str = \<lparr> totalVolume = total, coActivityRate = coRate, reciprocity = recip,
                  consistency = consist,
                  overallScore = real total * 0.4 + coRate * 100 * 0.2 + recip * 50 * 0.2
                                 + consist * 50 * 0.2 \<rparr>;
          tc = (if total \<ge> 100 then (Intimate, min 0.9 (real total / 200))
                else if total \<ge> 30 then (Friend, min 0.8 (real total / 60))
                else if total \<ge> 5 then (Acquaintance, min 0.7 (real total / 15))
                else if total > 0 then (Weak, 0.4)
                else (Unknown, 0));
          conf = snd tc * (0.7 + 0.3 * recip) * (0.8 + 0.2 * consist)
      in \<lparr> a_strength = str, a_tier = fst tc, a_confidence = conf \<rparr>)"

text \<open>
  What the specification asks of the volume: the counts recorded for exactly this pair,
  summed over the epochs at which any contact was recorded (the keys of \<open>activityLog\<close>).
\<close>

definition pairVolume :: "adversary \<Rightarrow> nat \<Rightarrow> nat \<Rightarrow> nat" where
  "pairVolume adv a b =
     sum_list (map (\<lambda>t. get_or (linkCounts adv) (timeKey a b t) 0) (map fst (activityLog adv)))"

text \<open>\<open>_getTierBonus\<close>; an absent tier (\<open>undefined\<close>) scores 0.\<close>

fun getTierBonus :: "est_tier option \<Rightarrow> real" where
  "getTierBonus (Some Intimate) = 10"
| "getTierBonus (Some Friend) = 5"
| "getTierBonus (Some Acquaintance) = 2"
| "getTierBonus (Some Weak) = 0.5"
| "getTierBonus (Some Unknown) = 0"
| "getTierBonus None = 0"

definition updateHistory :: "adversary \<Rightarrow> nat \<Rightarrow> nat \<Rightarrow> adversary" where
  "updateHistory adv s r =
     (let h = get_or (recipientHistory adv) s []
      in adv\<lparr> recipientHistory := AList.update s (AList.update r (get_or h r 0 + 1) h)
                                       (recipientHistory adv) \<rparr>)"

text \<open>
  The candidate recipients of \<open>inferEpoch\<close>: the estimated neighbours filtered by the
  adjacency when the estimate has any neighbour for the sender, the adjacency otherwise.
\<close>

definition candidateSet :: "adversary \<Rightarrow> nat list \<Rightarrow> nat \<Rightarrow> nat list" where
  "candidateSet adv nbrs s =
     (case map_of (estimatedGraph adv) s of
        Some est \<Rightarrow> if length est > 0 then filter (\<lambda>n. n \<in> set nbrs) est else nbrs
      | None \<Rightarrow> nbrs)"

definition score :: "adversary \<Rightarrow> nat \<Rightarrow> nat \<Rightarrow> nat \<Rightarrow> real" where
  "score adv t s v =
     (let immediateScore = real (sumCountsOverWindow adv s v t (delta adv));
          historicalScore = real (get_or (get_or (recipientHistory adv) s []) v 0);
          intersectionScore = computeIntersectionScore adv s v t 10;
          relationshipBonus = get_or (relationshipStrengths adv) (edgeKey s v) 0;
          tierBonus = getTierBonus (map_of (relationshipTiers adv) (edgeKey s v))
      in (immediateScore * 0.5 + historicalScore * 0.2 + intersectionScore * 0.1) * 0.7
         + (relationshipBonus * 0.001 + tierBonus) * 0.3)"

text \<open>
  \<open>Array.from(scores.entries()).sort((a, b) => b[1] - a[1])[0]\<close>: the sort is stable, so
  the winner is the first entry, in insertion order, with the greatest score.
\<close>

fun best_of :: "(nat \<times> real) list \<Rightarrow> (nat \<times> real) option" where
  "best_of [] = None"
| "best_of (e # es) =
     (case best_of es of
        None \<Rightarrow> Some e
      | Some b \<Rightarrow> if snd b > snd e then Some b else Some e)"

definition inferSender :: "nat \<Rightarrow> (nat \<Rightarrow> nat list) \<Rightarrow> adversary \<Rightarrow> nat \<Rightarrow> adversary" where
  "inferSender t adjacencyLookup adv s =
     (let nbrs = adjacencyLookup s in
      if length nbrs = 0 then adv
      else
        let cands = candidateSet adv nbrs s in
        if length cands = 0 then adv
        else
          let scores = foldl (\<lambda>m v. AList.update v (score adv t s v) m) [] cands
          in case best_of scores of
               None \<Rightarrow> adv
             | Some b \<Rightarrow>
                 updateHistory
                   (adv\<lparr> guesses := guesses adv @ [\<lparr> g_t = t, g_sender = s, guessRecipient = fst b \<rparr>] \<rparr>)
                   s (fst b))"

text \<open>The sender loop of \<open>inferEpoch\<close>, over a snapshot of the epoch's sender set.\<close>

definition inferSenders :: "adversary \<Rightarrow> nat \<Rightarrow> (nat \<Rightarrow> nat list) \<Rightarrow> adversary" where
  "inferSenders adv t adjacencyLookup =
     foldl (inferSender t adjacencyLookup) adv (get_or (sendEvents adv) t [])"

subsection \<open>Graph rebuild\<close>

text \<open>
  \<open>buildSocialGraphEstimate\<close> recovers the pairs from the keys of \<open>linkCounts\<close> with the
  regular expression \<open>/^(\d+)-(\d+)/\<close>, then reads the two numbers back with \<open>Number\<close>.
\<close>

definition isDigit :: "char \<Rightarrow> bool" where
  "isDigit c = (c \<in> set ''0123456789'')"

definition matchPair :: "string \<Rightarrow> (string \<times> string) option" where
  "matchPair k =
     (let a = takeWhile isDigit k in
      case dropWhile isDigit k of
        [] \<Rightarrow> None
      | c # r \<Rightarrow> if a \<noteq> [] \<and> c = CHR ''-'' \<and> takeWhile isDigit r \<noteq> []
                 then Some (a, takeWhile isDigit r) else None)"

definition digitVal :: "char \<Rightarrow> nat" where
  "digitVal c = length (takeWhile (\<lambda>d. d \<noteq> c) ''0123456789'')"

definition numberOf :: "string \<Rightarrow> nat" where
  "numberOf s = foldl (\<lambda>n c. 10 * n + digitVal c) 0 s"

definition nodePairs :: "adversary \<Rightarrow> (string \<times> string) list" where
  "nodePairs adv =
     foldl (\<lambda>ps (tk, c). case matchPair tk of None \<Rightarrow> ps | Some p \<Rightarrow> set_add ps p)
           [] (linkCounts adv)"

definition has_key :: "('k \<times> 'v) list \<Rightarrow> 'k \<Rightarrow> bool" where
  "has_key m k = (map_of m k \<noteq> None)"

definition addEstimatedEdge :: "(nat \<times> nat list) list \<Rightarrow> nat \<Rightarrow> nat \<Rightarrow> (nat \<times> nat list) list" where
  "addEstimatedEdge g a b =
     (let g1 = (if has_key g a then g else AList.update a [] g);
          g2 = (if has_key g1 b then g1 else AList.update b [] g1);
          g3 = AList.update a (set_add (get_or g2 a []) b) g2
      in AList.update b (set_add (get_or g3 b []) a) g3)"

text \<open>
  The body of the pair loop. The analysis reads \<open>linkCounts\<close>, \<open>activityLog\<close> and
  \<open>guesses\<close> only, which the loop does not change.
\<close>

definition analyzePair :: "adversary \<Rightarrow> string \<times> string \<Rightarrow> adversary" where
  "analyzePair adv p =
     (let a = numberOf (fst p); b = numberOf (snd p); pairKey = fst p @ ''-'' @ snd p;
          an = analyzeRelationship adv a b
      in if a_confidence an \<ge> 0.3
         then adv\<lparr> estimatedGraph := addEstimatedEdge (estimatedGraph adv) a b,
                   relationshipStrengths :=
                     AList.update pairKey (overallScore (a_strength an)) (relationshipStrengths adv),
                   relationshipTiers := AList.update pairKey (a_tier an) (relationshipTiers adv),
                   confidenceScores := AList.update pairKey (a_confidence an) (confidenceScores adv) \<rparr>
         else adv)"

subsection \<open>Community detection\<close>

text \<open>
  \<open>_detectCommunities\<close> orders the nodes of every pass with
  \<open>nodes.slice().sort(() => Math.random() - 0.5)\<close>. \<open>Math.random\<close> is not seeded, so the
  order of a pass is an input of the model: \<open>shuf i nodes\<close> is the order of pass \<open>i\<close>
  (a permutation of \<open>nodes\<close> in every JavaScript engine).
\<close>

definition countLabels :: "(nat \<times> nat) list \<Rightarrow> nat list \<Rightarrow> (nat \<times> nat) list" where
  "countLabels labels neighbors =
     foldl (\<lambda>m nb. let l = get_or labels nb nb in AList.update l (get_or m l 0 + 1) m) [] neighbors"

definition bestLabel :: "nat \<Rightarrow> (nat \<times> nat) list \<Rightarrow> nat" where
  "bestLabel own counts =
     snd (foldl (\<lambda>(maxCount, best) (l, c). if c > maxCount then (c, l) else (maxCount, best))
                (0, own) counts)"

definition relabel :: "(nat \<times> nat list) list \<Rightarrow> (nat \<times> nat) list \<times> bool \<Rightarrow> nat
                        \<Rightarrow> (nat \<times> nat) list \<times> bool" where
  "relabel g st node =
     (let labels = fst st; neighbors = get_or g node [] in
      if length neighbors = 0 then st
      else let own = get_or labels node node;
               best = bestLabel own (countLabels labels neighbors)
           in if best \<noteq> own then (AList.update node best labels, True) else st)"

text \<open>The \<open>while (changed && iterations < maxIterations)\<close> loop; \<open>fuel\<close> counts the passes left.\<close>

fun labelPasses :: "(nat \<Rightarrow> nat list \<Rightarrow> nat list) \<Rightarrow> (nat \<times> nat list) list \<Rightarrow> nat list
                      \<Rightarrow> nat \<Rightarrow> nat \<Rightarrow> (nat \<times> nat) list \<Rightarrow> (nat \<times> nat) list" where
  "labelPasses shuf g nodes 0 iterations labels = labels"
| "labelPasses shuf g nodes (Suc fuel) iterations labels =
     (let r = foldl (relabel g) (labels, False) (shuf (iterations + 1) nodes)
      in if snd r then labelPasses shuf g nodes fuel (iterations + 1) (fst r) else fst r)"

definition detectCommunities :: "(nat \<Rightarrow> nat list \<Rightarrow> nat list) \<Rightarrow> adversary \<Rightarrow> adversary" where
  "detectCommunities shuf adv =
     (let nodes = map fst (estimatedGraph adv);
          labels = foldl (\<lambda>m n. AList.update n n m) [] nodes
      in adv\<lparr> communityStructure := labelPasses shuf (estimatedGraph adv) nodes 20 0 labels \<rparr>)"

definition buildSocialGraphEstimate :: "(nat \<Rightarrow> nat list \<Rightarrow> nat list) \<Rightarrow> adversary \<Rightarrow> adversary" where
  "buildSocialGraphEstimate shuf adv =
     (let cleared = adv\<lparr> estimatedGraph := [], relationshipStrengths := [],
                          relationshipTiers := [], confidenceScores := [] \<rparr>
      in detectCommunities shuf (foldl analyzePair cleared (nodePairs cleared)))"

definition inferEpoch :: "(nat \<Rightarrow> nat list \<Rightarrow> nat list) \<Rightarrow> adversary \<Rightarrow> nat \<Rightarrow> (nat \<Rightarrow> nat list)
                           \<Rightarrow> adversary" where
  "inferEpoch shuf adv t adjacencyLookup =
     (let adv1 = inferSenders adv t adjacencyLookup
      in if t mod 20 = 0 \<and> t > 0 then buildSocialGraphEstimate shuf adv1 else adv1)"

section \<open>The seeded generator of NetworkTemporal.run\<close>

definition rng_next :: "int \<Rightarrow> int" where
  "rng_next seed = (seed * 16807) smod 2147483647"

definition rng_out :: "int \<Rightarrow> rat" where
  "rng_out seed = of_int (seed - 1) / 2147483646"

definition rng :: "int \<Rightarrow> rat \<times> int" where
  "rng seed = (rng_out (rng_next seed), rng_next seed)"

definition rng_ok :: "int \<Rightarrow> bool" where
  "rng_ok seed = (0 < seed \<and> seed < 2147483647)"

section \<open>Routing\<close>

type_synonym graph = "(nat \<times> nat list) list"

definition neighbors :: "graph \<Rightarrow> nat \<Rightarrow> nat list" where
  "neighbors g u = get_or g u []"

definition allNodes :: "graph \<Rightarrow> nat set" where
  "allNodes g = set (concat (map snd g))"

definition last_neighbors :: "graph \<Rightarrow> nat list \<Rightarrow> nat list" where
  "last_neighbors g path = (case path of [] \<Rightarrow> [] | _ \<Rightarrow> neighbors g (last path))"

record tracker =
  nodeUsage :: "(nat \<times> nat) list"
  edgeUsage :: "(string \<times> nat) list"

definition sortedPairKey :: "nat \<Rightarrow> nat \<Rightarrow> string" where
  "sortedPairKey a b = (if decimal b < decimal a then decimal b @ ''-'' @ decimal a
                        else decimal a @ ''-'' @ decimal b)"

definition bump :: "('k \<times> nat) list \<Rightarrow> 'k \<Rightarrow> ('k \<times> nat) list" where
  "bump m k = AList.update k (get_or m k 0 + 1) m"

definition recordPath :: "tracker \<Rightarrow> nat list \<Rightarrow> tracker" where
  "recordPath tr path =
     \<lparr> nodeUsage = foldl bump (nodeUsage tr) path,
       edgeUsage = foldl (\<lambda>m (a, b). bump m (sortedPairKey a b)) (edgeUsage tr) (zip path (tl path)) \<rparr>"

definition getNodeScore :: "tracker \<Rightarrow> nat \<Rightarrow> rat" where
  "getNodeScore tr nodeId = 1 / (1 + of_nat (get_or (nodeUsage tr) nodeId 0) * (1 / 10))"

definition getEdgeScore :: "tracker \<Rightarrow> nat \<Rightarrow> nat \<Rightarrow> rat" where
  "getEdgeScore tr a b = 1 / (1 + of_nat (get_or (edgeUsage tr) (sortedPairKey a b) 0) * (1 / 10))"

fun sp_scan :: "nat \<Rightarrow> nat list \<Rightarrow> nat list \<Rightarrow> nat list \<Rightarrow> nat list list
                 \<Rightarrow> nat list + (nat list \<times> nat list list)" where
  "sp_scan dst path [] seen q = Inr (seen, q)"
| "sp_scan dst path (n # ns) seen q =
     (if n \<in> set seen then sp_scan dst path ns seen q
      else if n = dst then Inl (path @ [n])
      else sp_scan dst path ns (seen @ [n]) (q @ [path @ [n]]))"

lemma neighbors_nodes: "set (neighbors g u) \<subseteq> allNodes g"
proof
  fix x assume "x \<in> set (neighbors g u)"
  then obtain ns where "map_of g u = Some ns" "x \<in> set ns"
    by (cases "map_of g u") (auto simp: neighbors_def get_or_def)
  then have "(u, ns) \<in> set g" by (simp add: map_of_SomeD)
  with \<open>x \<in> set ns\<close> show "x \<in> allNodes g" by (force simp: allNodes_def)
qed

lemma last_neighbors_nodes: "set (last_neighbors g p) \<subseteq> allNodes g"
  using neighbors_nodes by (auto simp: last_neighbors_def split: list.splits)

lemma finite_nodes: "finite (allNodes g)"
  by (simp add: allNodes_def)

lemma card_unseen_step:
  assumes "finite N" "n \<in> N" "n \<notin> set seen"
  shows "card (N - set seen) = Suc (card (N - set (seen @ [n])))"
proof -
  have "n \<in> N - set seen" using assms by auto
  then have "card (N - set seen) = Suc (card (N - set seen - {n}))"
    using assms(1) by (metis card.remove finite_Diff)
  moreover have "N - set (seen @ [n]) = N - set seen - {n}" by auto
  ultimately show ?thesis by simp
qed

lemma sp_scan_measure:
  "sp_scan dst path ns seen q = Inr (seen', q') \<Longrightarrow> set ns \<subseteq> N \<Longrightarrow> finite N \<Longrightarrow>
   2 * card (N - set seen') + length q' \<le> 2 * card (N - set seen) + length q"
proof (induction ns arbitrary: seen q)
  case Nil
  then show ?case by simp
next
  case (Cons n ns)
  show ?case
  proof (cases "n \<in> set seen")
    case True
    with Cons show ?thesis by simp
  next
    case False
    with Cons.prems have nd: "n \<noteq> dst" by (auto split: if_splits)
    from Cons.prems False nd
    have rec: "sp_scan dst path ns (seen @ [n]) (q @ [path @ [n]]) = Inr (seen', q')" by simp
    have sub: "set ns \<subseteq> N" using Cons.prems by simp
    have ih: "2 * card (N - set seen') + length q'
              \<le> 2 * card (N - set (seen @ [n])) + length (q @ [path @ [n]])"
      by (rule Cons.IH [OF rec sub Cons.prems(3)])
    have c: "card (N - set seen) = Suc (card (N - set (seen @ [n])))"
      by (rule card_unseen_step) (use Cons.prems False in auto)
    show ?thesis using ih unfolding c by simp
  qed
qed

function sp_loop :: "graph \<Rightarrow> nat \<Rightarrow> int \<Rightarrow> nat list \<Rightarrow> nat list list \<Rightarrow> nat list option" where
  "sp_loop g dst Hmax seen [] = None"
| "sp_loop g dst Hmax seen (path # q) =
     (if int (length path) > Hmax + 1 then sp_loop g dst Hmax seen q
      else case sp_scan dst path (last_neighbors g path) seen q of
             Inl found \<Rightarrow> Some found
           | Inr (seen', q') \<Rightarrow> sp_loop g dst Hmax seen' q')"
  by pat_completeness auto
termination
proof (relation "measure (\<lambda>(g, dst, Hmax, seen, q). 2 * card (allNodes g - set seen) + length q)", goal_cases)
  case 1
  then show ?case by simp
next
  case (2 g dst Hmax seen path q)
  then show ?case by simp
next
  case (3 g dst Hmax seen path q x2 x y)
  then have "sp_scan dst path (last_neighbors g path) seen q = Inr (x, y)" by simp
  from sp_scan_measure [OF this last_neighbors_nodes finite_nodes]
  show ?case by simp
qed

definition shortestPath :: "graph \<Rightarrow> nat \<Rightarrow> nat \<Rightarrow> int \<Rightarrow> nat list option" where
  "shortestPath g src dst Hmax =
     (if src = dst then Some [src] else sp_loop g dst Hmax [src] [[src]])"

fun dp_scan :: "nat \<Rightarrow> nat list \<Rightarrow> nat list \<Rightarrow> nat list \<Rightarrow> nat list list \<Rightarrow> nat list list
                 \<Rightarrow> nat list \<times> nat list list \<times> nat list list" where
  "dp_scan dst path [] seen queue found = (seen, queue, found)"
| "dp_scan dst path (n # ns) seen queue found =
     (if n \<in> set seen \<and> n \<noteq> dst then dp_scan dst path ns seen queue found
      else if n = dst then
        (if length (found @ [path @ [n]]) \<ge> 20 then (seen, queue, found @ [path @ [n]])
         else dp_scan dst path ns seen queue (found @ [path @ [n]]))
      else dp_scan dst path ns (seen @ [n]) (queue @ [path @ [n]]) found)"

lemma dp_scan_measure:
  "dp_scan dst path ns seen q found = (seen', q', found') \<Longrightarrow> set ns \<subseteq> N \<Longrightarrow> finite N \<Longrightarrow>
   2 * card (N - set seen') + length q' \<le> 2 * card (N - set seen) + length q"
proof (induction ns arbitrary: seen q found)
  case Nil
  then show ?case by simp
next
  case (Cons n ns)
  consider (skip) "n \<in> set seen" "n \<noteq> dst" | (hit) "n = dst" | (new) "n \<notin> set seen" "n \<noteq> dst"
    by blast
  then show ?case
  proof cases
    case skip
    with Cons show ?thesis by simp
  next
    case hit
    with Cons show ?thesis by (auto split: if_splits)
  next
    case new
    with Cons.prems
    have rec: "dp_scan dst path ns (seen @ [n]) (q @ [path @ [n]]) found = (seen', q', found')" by simp
    have sub: "set ns \<subseteq> N" using Cons.prems by simp
    have ih: "2 * card (N - set seen') + length q'
              \<le> 2 * card (N - set (seen @ [n])) + length (q @ [path @ [n]])"
      by (rule Cons.IH [OF rec sub Cons.prems(3)])
    have c: "card (N - set seen) = Suc (card (N - set (seen @ [n])))"
      by (rule card_unseen_step) (use Cons.prems new in auto)
    show ?thesis using ih unfolding c by simp
  qed
qed

lemma dp_scan_measure_case:
  assumes "set ns \<subseteq> N" "finite N"
  shows "(case dp_scan dst path ns seen q found of
            (seen', q', found') \<Rightarrow> 2 * card (N - set seen') + length q')
         \<le> 2 * card (N - set seen) + length q"
  using dp_scan_measure [OF _ assms] by (cases "dp_scan dst path ns seen q found") auto

function dp_loop :: "graph \<Rightarrow> nat \<Rightarrow> int \<Rightarrow> nat list \<Rightarrow> nat list list \<Rightarrow> nat list list
                     \<Rightarrow> nat list list" where
  "dp_loop g dst Hmax seen [] found = found"
| "dp_loop g dst Hmax seen (path # q) found =
     (if length found \<ge> 20 then found
      else if int (length path) > Hmax + 1 then dp_loop g dst Hmax seen q found
      else case dp_scan dst path (last_neighbors g path) seen q found of
             (seen', q', found') \<Rightarrow> dp_loop g dst Hmax seen' q' found')"
  by pat_completeness auto
termination
proof (relation "measure (\<lambda>(g, dst, Hmax, seen, q, found). 2 * card (allNodes g - set seen) + length q)",
       goal_cases)
  case 1
  then show ?case by simp
next
  case (2 g dst Hmax seen path q found)
  then show ?case by simp
next
  case 3
  then show ?case
    by (clarsimp simp: less_Suc_eq_le dp_scan_measure_case [OF last_neighbors_nodes finite_nodes])
qed

definition pathScore :: "tracker \<Rightarrow> nat list \<Rightarrow> rat" where
  "pathScore tr path =
     (sum_list (map (getNodeScore tr) path)
      + sum_list (map (\<lambda>(a, b). getEdgeScore tr a b) (zip path (tl path))))
     * (19 / 20) ^ length path"

fun roulette :: "rat \<Rightarrow> (nat list \<times> rat) list \<Rightarrow> nat list option" where
  "roulette r [] = None"
| "roulette r ((path, sc) # rest) = (if r - sc \<le> 0 then Some path else roulette (r - sc) rest)"

definition findDiversePath :: "graph \<Rightarrow> nat \<Rightarrow> nat \<Rightarrow> int \<Rightarrow> tracker \<Rightarrow> int
                                \<Rightarrow> nat list option \<times> int" where
  "findDiversePath g src dst Hmax tr seed =
     (if src = dst then (Some [src], seed)
      else case dp_loop g dst Hmax [src] [[src]] [] of
             [] \<Rightarrow> (None, seed)
           | p0 # ps \<Rightarrow>
               let scoredPaths = map (\<lambda>p. (p, pathScore tr p)) (p0 # ps);
                   totalScore = sum_list (map snd scoredPaths);
                   (u, seed1) = rng seed
               in case roulette (u * totalScore) scoredPaths of
                    Some p \<Rightarrow> (Some p, seed1)
                  | None \<Rightarrow> (Some p0, seed1))"

datatype error = TypeError | UndefinedNode

datatype walk = Returned "nat list" int | Ended "nat list" nat int | Undefined

fun rw_loop :: "graph \<Rightarrow> nat \<Rightarrow> nat \<Rightarrow> nat list \<Rightarrow> nat \<Rightarrow> nat list \<Rightarrow> int \<Rightarrow> walk" where
  "rw_loop g dst 0 path current seen seed = Ended path current seed"
| "rw_loop g dst (Suc k) path current seen seed =
     (let nbrs = neighbors g current in
      if length nbrs = 0 then Ended path current seed
      else
        let (hit, seed1) = (if dst \<in> set nbrs then (fst (rng seed) < 3 / 10, snd (rng seed))
                            else (False, seed))
        in if hit then Returned (path @ [dst]) seed1
           else
             let unvisited = filter (\<lambda>n. n \<notin> set seen) nbrs;
                 candidates = (if length unvisited > 0 then unvisited else nbrs);
                 (u, seed2) = rng seed1;
                 idx = \<lfloor>u * of_nat (length candidates)\<rfloor>
             in if 0 \<le> idx \<and> idx < int (length candidates)
                then let next = candidates ! nat idx
                     in if next = dst then Returned (path @ [next]) seed2
                        else rw_loop g dst k (path @ [next]) next (set_add seen next) seed2
                else Undefined)"

definition randomWalkPath :: "graph \<Rightarrow> nat \<Rightarrow> nat \<Rightarrow> nat \<Rightarrow> int \<Rightarrow> error + (nat list \<times> int)" where
  "randomWalkPath g src dst maxLength seed =
     (case rw_loop g dst (maxLength - 1) [src] src [src] seed of
        Returned path seed1 \<Rightarrow> Inr (path, seed1)
      | Undefined \<Rightarrow> Inl UndefinedNode
      | Ended path current seed1 \<Rightarrow>
          (case shortestPath g current dst (int maxLength - int (length path)) of
             Some finalPath \<Rightarrow> Inr (path @ tl finalPath, seed1)
           | None \<Rightarrow> Inr ([src, dst], seed1)))"

definition selectPath :: "graph \<Rightarrow> nat \<Rightarrow> nat \<Rightarrow> int \<Rightarrow> tracker \<Rightarrow> int
                           \<Rightarrow> error + (nat list option \<times> int)" where
  "selectPath g src dst Hmax tr seed =
     (let (r, seed1) = rng seed in
      case shortestPath g src dst Hmax of
        None \<Rightarrow> Inr (None, seed1)
      | Some shortestPathResult \<Rightarrow>
          let shortestLength = length shortestPathResult;
              maxLength = (shortestLength * 3) div 2
          in if r < 4 / 10 then Inr (Some shortestPathResult, seed1)
             else if r < 4 / 10 + 35 / 100 then
               let (u, seed2) = rng seed1;
                   targetLength = int shortestLength + 1 + \<lfloor>u * 2\<rfloor>
               in case findDiversePath g src dst (min targetLength (int maxLength)) tr seed2 of
                    (Some path, seed3) \<Rightarrow> Inr (Some path, seed3)
                  | (None, seed3) \<Rightarrow> Inr (Some shortestPathResult, seed3)
             else if r < 1 - 5 / 100 then
               (case findDiversePath g src dst (int maxLength) tr seed1 of
                  (Some path, seed3) \<Rightarrow> Inr (Some path, seed3)
                | (None, seed3) \<Rightarrow> Inr (Some shortestPathResult, seed3))
             else
               (case randomWalkPath g src dst maxLength seed1 of
                  Inl e \<Rightarrow> Inl e
                | Inr (path, seed3) \<Rightarrow> Inr (Some path, seed3)))"





section \<open>Conversations and replies\<close>

datatype tier = intimate | friend | acquaintance

type_synonym tiers = "(nat \<times> (nat \<times> tier) list) list"

text \<open>\<open>tierMap.get(a)?.get(b) || 'acquaintance'\<close>\<close>

definition tierOf :: "tiers \<Rightarrow> nat \<Rightarrow> nat \<Rightarrow> tier" where
  "tierOf tm a b = (case map_of tm a of None \<Rightarrow> acquaintance | Some m \<Rightarrow> get_or m b acquaintance)"

fun tierMultiplier :: "tier \<Rightarrow> rat" where
  "tierMultiplier intimate = 3 / 2"
| "tierMultiplier friend = 1"
| "tierMultiplier acquaintance = 6 / 10"

record thread =
  participants :: "nat list"
  messageCount :: nat
  lastActive :: nat
  isActive :: bool

definition newThread :: "nat \<Rightarrow> nat \<Rightarrow> thread" where
  "newThread a b = \<lparr> participants = set_add [a] b, messageCount = 0, lastActive = 0, isActive = True \<rparr>"

definition shouldContinue :: "thread \<Rightarrow> nat \<Rightarrow> int \<Rightarrow> bool \<times> int" where
  "shouldContinue th t seed =
     (if messageCount th \<ge> 5 then (False, seed)
      else if int t - int (lastActive th) > 10 then (False, seed)
      else (fst (rng seed) < (7 / 10) ^ messageCount th, snd (rng seed)))"

datatype replyType = instant | delayed | eventual

record reply =
  subEpoch :: int
  to :: nat
  rtype :: replyType

definition scheduleReply :: "tiers \<Rightarrow> nat \<Rightarrow> nat \<Rightarrow> nat \<Rightarrow> int \<Rightarrow> (replyType \<times> int) option \<times> int" where
  "scheduleReply tm recipient sender t seed =
     (let tierMult = tierMultiplier (tierOf tm recipient sender);
          (r, seed1) = rng seed;
          adjustedInstant = 25 / 100 * tierMult;
          adjustedDelayed = 60 / 100 * tierMult;
          adjustedEventual = 10 / 100 * tierMult;
          total = adjustedInstant + adjustedDelayed + adjustedEventual + 5 / 100
      in if r < adjustedInstant / total then (Some (instant, int t), seed1)
         else if r < (adjustedInstant + adjustedDelayed) / total then
           (Some (delayed, int t + (1 + \<lfloor>fst (rng seed1) * 5\<rfloor>)), snd (rng seed1))
         else if r < (adjustedInstant + adjustedDelayed + adjustedEventual) / total then
           (Some (eventual, int t + (5 + \<lfloor>fst (rng seed1) * 15\<rfloor>)), snd (rng seed1))
         else (None, seed1))"

section \<open>NetworkTemporal.run: the main simulation loop\<close>

datatype msg_id = ReplyId nat nat rat | SendId nat nat nat rat | DummyId nat nat nat rat

record message =
  m_t :: nat
  m_sender :: nat
  m_recipient :: nat
  m_id :: msg_id
  m_path :: "nat list"
  m_hopTimes :: "nat list"
  m_dummy :: bool
  m_isReply :: bool

record 'c config =
  numUsers :: nat
  socialGraph :: graph
  tierMap :: tiers
  optHmax :: int
  optT :: nat
  tierWeights :: "tier \<Rightarrow> rat"
  noiseEdgesPerEpoch :: nat
  mathRandom :: "nat \<Rightarrow> rat"
  shuffle :: "nat \<Rightarrow> nat list \<Rightarrow> nat list"
  coverEnabled :: bool
  recordRealMessage :: "'c \<Rightarrow> nat \<Rightarrow> nat \<Rightarrow> nat \<Rightarrow> 'c"
  generateCoverTraffic :: "'c \<Rightarrow> nat \<Rightarrow> int \<Rightarrow> (nat \<times> nat) list \<times> 'c \<times> int"

record 'c sim =
  rngSeed :: int
  mrDraws :: nat
  replyQueue :: "reply list list"
  activeThreads :: "(string \<times> thread) list"
  pathDiversityTracker :: tracker
  futureLinkCounts :: "(string \<times> nat) list list"
  sentLog :: "message list list"
  advState :: adversary
  coverTrafficMgr :: 'c
  accepts :: nat
  skips :: nat

definition linkKey :: "nat \<Rightarrow> nat \<Rightarrow> string" where
  "linkKey x y = decimal (min x y) @ ''-'' @ decimal (max x y)"

fun recordHops :: "nat \<Rightarrow> nat \<Rightarrow> (nat \<times> nat) list \<Rightarrow> (string \<times> nat) list list \<Rightarrow> nat list
                    \<Rightarrow> (string \<times> nat) list list \<times> nat list" where
  "recordHops T e [] flc hts = (flc, hts)"
| "recordHops T e ((a, b) # es) flc hts =
     (if e \<ge> T then (flc, hts)
      else recordHops T (e + 1) es (flc[e := bump (flc ! e) (linkKey a b)]) (hts @ [e]))"

fun foldE :: "('s \<Rightarrow> 'a \<Rightarrow> error + 's) \<Rightarrow> 'a list \<Rightarrow> 's \<Rightarrow> error + 's" where
  "foldE f [] s = Inr s"
| "foldE f (x # xs) s = (case f s x of Inl e \<Rightarrow> Inl e | Inr s' \<Rightarrow> foldE f xs s')"

text \<open>
  Appending a routed message: the diversity tracker, the per-hop link counts, the log
  (\<open>this.sentLog[t].push\<close> throws when the log has no epoch \<open>t\<close>), the adversary's
  \<open>noteSend\<close>.
\<close>

definition logMessage :: "'c config \<Rightarrow> nat \<Rightarrow> nat \<Rightarrow> nat \<Rightarrow> msg_id \<Rightarrow> nat list \<Rightarrow> bool \<Rightarrow> bool
                           \<Rightarrow> 'c sim \<Rightarrow> error + 'c sim" where
  "logMessage cfg t s r mid p isDummy reply st =
     (let (flc, hts) = recordHops (optT cfg) t (zip p (tl p)) (futureLinkCounts st) [];
          msg = \<lparr> m_t = t, m_sender = s, m_recipient = r, m_id = mid, m_path = p, m_hopTimes = hts,
                  m_dummy = isDummy, m_isReply = reply \<rparr>
      in if t < length (sentLog st)
         then Inr (st\<lparr> pathDiversityTracker := recordPath (pathDiversityTracker st) p,
                       futureLinkCounts := flc,
                       sentLog := (sentLog st)[t := sentLog st ! t @ [msg]],
                       advState := noteSend (advState st) t s \<rparr>)
         else Inl TypeError)"

definition recordReal :: "'c config \<Rightarrow> nat \<Rightarrow> nat \<Rightarrow> nat \<Rightarrow> 'c sim \<Rightarrow> 'c sim" where
  "recordReal cfg s r t st =
     (if coverEnabled cfg
      then st\<lparr> coverTrafficMgr := recordRealMessage cfg (coverTrafficMgr st) s r t \<rparr>
      else st)"

text \<open>\<open>scheduleReply\<close> and the push on the recipient's queue, for \<open>recipient < numUsers\<close>.\<close>

definition enqueueReply :: "'c config \<Rightarrow> nat \<Rightarrow> nat \<Rightarrow> nat \<Rightarrow> 'c sim \<Rightarrow> 'c sim" where
  "enqueueReply cfg recipientId senderId t st =
     (case scheduleReply (tierMap cfg) recipientId senderId t (rngSeed st) of
        (None, seed1) \<Rightarrow> st\<lparr> rngSeed := seed1 \<rparr>
      | (Some (ty, ep), seed1) \<Rightarrow>
          let replySubEpoch = ep * 6 + \<lfloor>fst (rng seed1) * 6\<rfloor>
          in st\<lparr> rngSeed := snd (rng seed1),
                  replyQueue := (replyQueue st)[recipientId :=
                     replyQueue st ! recipientId
                     @ [\<lparr> subEpoch = replySubEpoch, to = senderId, rtype = ty \<rparr>]] \<rparr>)"

text \<open>\<open>activeThreads.get(threadKey)\<close>, creating the thread when there is none.\<close>

definition threadFor :: "nat \<Rightarrow> nat \<Rightarrow> 'c sim \<Rightarrow> 'c sim" where
  "threadFor userId recipientId st =
     (if has_key (activeThreads st) (sortedPairKey userId recipientId) then st
      else st\<lparr> activeThreads :=
                 AList.update (sortedPairKey userId recipientId) (newThread userId recipientId)
                   (activeThreads st) \<rparr>)"

text \<open>
  The body of \<open>if (thread.shouldContinue(t, rng))\<close>. \<open>skips\<close> is bookkeeping of the
  model: it counts the times \<open>selectPath\<close> returned \<open>null\<close> here, where the source leaves
  through \<open>if (!path) continue\<close>.
\<close>

definition emitReply :: "'c config \<Rightarrow> nat \<Rightarrow> nat \<Rightarrow> nat \<Rightarrow> msg_id \<Rightarrow> thread \<Rightarrow> 'c sim
                          \<Rightarrow> error + 'c sim" where
  "emitReply cfg t userId recipientId msgId th st =
     (if recipientId \<ge> numUsers cfg then Inl TypeError
      else
        case selectPath (socialGraph cfg) userId recipientId (optHmax cfg)
               (pathDiversityTracker st) (rngSeed st) of
          Inl e \<Rightarrow> Inl e
        | Inr (None, seed2) \<Rightarrow>
            Inr (st\<lparr> rngSeed := seed2, skips := skips st + 1 \<rparr>)
        | Inr (Some p, seed2) \<Rightarrow>
            (case logMessage cfg t userId recipientId msgId p False True
                    (st\<lparr> rngSeed := seed2 \<rparr>) of
               Inl e \<Rightarrow> Inl e
             | Inr st4 \<Rightarrow>
                 let st5 = recordReal cfg userId recipientId t st4;
                     st6 = st5\<lparr> activeThreads :=
                                AList.update (sortedPairKey userId recipientId)
                                  (th\<lparr> messageCount := messageCount th + 1, lastActive := t \<rparr>)
                                  (activeThreads st5) \<rparr>
                 in Inr (enqueueReply cfg recipientId userId t st6)))"

text \<open>
  One entry of \<open>repliesForThisSubEpoch\<close>. \<open>accepts\<close> is bookkeeping of the model: it counts
  the times \<open>thread.shouldContinue(t, rng)\<close> returned true, at the test itself.
\<close>

definition replyEntry :: "'c config \<Rightarrow> nat \<Rightarrow> nat \<Rightarrow> 'c sim \<Rightarrow> reply \<Rightarrow> error + 'c sim" where
  "replyEntry cfg se userId st rp =
     (let t = se div 6;
          msgId = ReplyId se userId (mathRandom cfg (mrDraws st));
          st2 = threadFor userId (to rp) (st\<lparr> mrDraws := mrDraws st + 1 \<rparr>);
          th = get_or (activeThreads st2) (sortedPairKey userId (to rp)) (newThread userId (to rp));
          sc = shouldContinue th t (rngSeed st2)
      in if fst sc
         then emitReply cfg t userId (to rp) msgId th
                (st2\<lparr> rngSeed := snd sc, accepts := accepts st2 + 1 \<rparr>)
         else Inr (st2\<lparr> rngSeed := snd sc \<rparr>))"

definition userReplies :: "'c config \<Rightarrow> nat \<Rightarrow> 'c sim \<Rightarrow> nat \<Rightarrow> error + 'c sim" where
  "userReplies cfg se st userId =
     (case foldE (replyEntry cfg se userId)
             (filter (\<lambda>r. subEpoch r = int se) (replyQueue st ! userId)) st of
        Inl e \<Rightarrow> Inl e
      | Inr st1 \<Rightarrow>
          Inr (st1\<lparr> replyQueue := (replyQueue st1)[userId :=
                         filter (\<lambda>r. subEpoch r > int se) (replyQueue st1 ! userId)] \<rparr>))"

fun pw_loop :: "rat \<Rightarrow> (nat \<times> rat) list \<Rightarrow> nat option" where
  "pw_loop r [] = None"
| "pw_loop r ((item, w) # rest) = (if r - w \<le> 0 then Some item else pw_loop (r - w) rest)"

definition pickWeighted :: "nat list \<Rightarrow> rat list \<Rightarrow> rat \<Rightarrow> nat option" where
  "pickWeighted items weights u =
     (case pw_loop (u * sum_list weights) (zip items weights) of
        Some item \<Rightarrow> Some item
      | None \<Rightarrow> (case items of [] \<Rightarrow> None | _ \<Rightarrow> Some (last items)))"

definition weightOf :: "'c config \<Rightarrow> tier \<Rightarrow> rat" where
  "weightOf cfg tr = (if tierWeights cfg tr = 0 then tierWeights cfg acquaintance else tierWeights cfg tr)"

definition newSend :: "'c config \<Rightarrow> nat \<Rightarrow> 'c sim \<Rightarrow> nat \<Rightarrow> error + 'c sim" where
  "newSend cfg se st uId =
     (let t = se div 6; nbrs = neighbors (socialGraph cfg) uId in
      if uId \<ge> numUsers cfg then Inr st
      else if length nbrs = 0 then Inr st
      else
        let weights = map (\<lambda>nId. weightOf cfg (tierOf (tierMap cfg) uId nId)) nbrs
        in case pickWeighted nbrs weights (mathRandom cfg (mrDraws st)) of
             None \<Rightarrow> Inr (st\<lparr> mrDraws := mrDraws st + 1 \<rparr>)
           | Some recipientId \<Rightarrow>
               let msgId = SendId t se uId (mathRandom cfg (mrDraws st + 1));
                   st1 = st\<lparr> mrDraws := mrDraws st + 2 \<rparr>
               in if recipientId \<ge> numUsers cfg then Inl TypeError
                  else
                    case selectPath (socialGraph cfg) uId recipientId (optHmax cfg)
                           (pathDiversityTracker st1) (rngSeed st1) of
                      Inl e \<Rightarrow> Inl e
                    | Inr (None, seed2) \<Rightarrow> Inl TypeError
                    | Inr (Some p, seed2) \<Rightarrow>
                        (case logMessage cfg t uId recipientId msgId p False False
                                (st1\<lparr> rngSeed := seed2 \<rparr>) of
                           Inl e \<Rightarrow> Inl e
                         | Inr st2 \<Rightarrow>
                             Inr (enqueueReply cfg recipientId uId t
                                    (recordReal cfg uId recipientId t st2))))"

definition injectCover :: "'c config \<Rightarrow> nat \<Rightarrow> 'c sim \<Rightarrow> nat \<times> nat \<Rightarrow> error + 'c sim" where
  "injectCover cfg se st fromTo =
     (let t = se div 6; senderId = fst fromTo; recipientId = snd fromTo in
      case selectPath (socialGraph cfg) senderId recipientId (optHmax cfg)
             (pathDiversityTracker st) (rngSeed st) of
        Inl e \<Rightarrow> Inl e
      | Inr (None, seed2) \<Rightarrow> Inl TypeError
      | Inr (Some p, seed2) \<Rightarrow>
          logMessage cfg t senderId recipientId
            (DummyId t senderId recipientId (mathRandom cfg (mrDraws st))) p True False
            (st\<lparr> rngSeed := seed2, mrDraws := mrDraws st + 1 \<rparr>))"

definition coverStep :: "'c config \<Rightarrow> nat \<Rightarrow> 'c sim \<Rightarrow> error + 'c sim" where
  "coverStep cfg se st =
     (if se mod 6 = 0 \<and> coverEnabled cfg
      then case generateCoverTraffic cfg (coverTrafficMgr st) (se div 6) (rngSeed st) of
             (coverMessages, mgr, seed1) \<Rightarrow>
               foldE (injectCover cfg se) coverMessages (st\<lparr> coverTrafficMgr := mgr, rngSeed := seed1 \<rparr>)
      else Inr st)"

text \<open>Materialisation: noise edges, \<open>noteContact\<close> for every link of the epoch, \<open>inferEpoch\<close>.\<close>

definition noiseEdge :: "'c config \<Rightarrow> (string \<times> nat) list \<times> int \<Rightarrow> nat
                         \<Rightarrow> error + ((string \<times> nat) list \<times> int)" where
  "noiseEdge cfg ps i =
     (let (u, seed1) = rng (snd ps);
          a = \<lfloor>u * of_nat (numUsers cfg)\<rfloor>;
          nbrs = (if a < 0 then [] else neighbors (socialGraph cfg) (nat a))
      in if length nbrs = 0 then Inr (fst ps, seed1)
         else
           let (v, seed2) = rng seed1; idx = \<lfloor>v * of_nat (length nbrs)\<rfloor>
           in if 0 \<le> idx \<and> idx < int (length nbrs)
              then Inr (bump (fst ps) (linkKey (nat a) (nbrs ! nat idx)), seed2)
              else Inl TypeError)"

definition splitKey :: "string \<Rightarrow> nat \<times> nat" where
  "splitKey k = (numberOf (takeWhile (\<lambda>c. c \<noteq> CHR ''-'') k),
                 numberOf (takeWhile (\<lambda>c. c \<noteq> CHR ''-'') (drop 1 (dropWhile (\<lambda>c. c \<noteq> CHR ''-'') k))))"

definition contact :: "'c config \<Rightarrow> nat \<Rightarrow> adversary \<Rightarrow> string \<times> nat \<Rightarrow> error + adversary" where
  "contact cfg t a kc =
     (let (x, y) = splitKey (fst kc)
      in if x < numUsers cfg \<and> y < numUsers cfg then Inr (noteContact a t x y (snd kc))
         else Inl TypeError)"

definition materialize :: "'c config \<Rightarrow> nat \<Rightarrow> 'c sim \<Rightarrow> error + 'c sim" where
  "materialize cfg se st =
     (let t = se div 6 in
      if se mod 6 = 5 \<or> se + 1 = optT cfg * 6
      then case foldE (noiseEdge cfg) [0 ..< noiseEdgesPerEpoch cfg]
                  (futureLinkCounts st ! t, rngSeed st) of
             Inl e \<Rightarrow> Inl e
           | Inr (perLinkPacketCounts, seed1) \<Rightarrow>
               (case foldE (contact cfg t) perLinkPacketCounts (advState st) of
                  Inl e \<Rightarrow> Inl e
                | Inr adv1 \<Rightarrow>
                    Inr (st\<lparr> rngSeed := seed1,
                             advState := inferEpoch (shuffle cfg) adv1 t (neighbors (socialGraph cfg)) \<rparr>))
      else Inr st)"

definition subEpochStep :: "'c config \<Rightarrow> nat list list \<Rightarrow> 'c sim \<Rightarrow> nat \<Rightarrow> error + 'c sim" where
  "subEpochStep cfg subEpochEvents st se =
     (case foldE (userReplies cfg se) [0 ..< numUsers cfg] st of
        Inl e \<Rightarrow> Inl e
      | Inr st1 \<Rightarrow>
          (case foldE (newSend cfg se) (subEpochEvents ! se) st1 of
             Inl e \<Rightarrow> Inl e
           | Inr st2 \<Rightarrow>
               (case coverStep cfg se st2 of
                  Inl e \<Rightarrow> Inl e
                | Inr st3 \<Rightarrow> materialize cfg se st3)))"

definition mainLoop :: "'c config \<Rightarrow> nat list list \<Rightarrow> 'c sim \<Rightarrow> error + 'c sim" where
  "mainLoop cfg subEpochEvents st =
     foldE (subEpochStep cfg subEpochEvents) [0 ..< optT cfg * 6] st"

text \<open>
  The state in which \<open>run\<close> enters the loop: the generator state left by the set-up, the
  reply queues the users carry, a fresh adversary or the caller's.
\<close>

definition initialSim :: "'c config \<Rightarrow> int \<Rightarrow> reply list list \<Rightarrow> adversary \<Rightarrow> 'c \<Rightarrow> 'c sim" where
  "initialSim cfg seed0 queues a mgr =
     \<lparr> rngSeed = seed0, mrDraws = 0, replyQueue = queues, activeThreads = [],
       pathDiversityTracker = \<lparr> nodeUsage = [], edgeUsage = [] \<rparr>,
       futureLinkCounts = replicate (optT cfg) [],
       sentLog = replicate (optT cfg) [],
       advState = a, coverTrafficMgr = mgr, accepts = 0, skips = 0 \<rparr>"


text \<open>
  The state with the community labels of the adversary replaced, and with them forgotten.
\<close>

definition withLabels :: "(nat \<times> nat) list \<Rightarrow> 'c sim \<Rightarrow> 'c sim" where
  "withLabels c st = st\<lparr> advState := (advState st)\<lparr> communityStructure := c \<rparr> \<rparr>"

definition unlabelled :: "'c sim \<Rightarrow> 'c sim" where
  "unlabelled st = withLabels [] st"

section \<open>temporal.js and the distribution of events to sub-epochs\<close>

text \<open>
  Times are exact rationals. \<open>generateEventsForHours\<close> takes the state of its generator
  after \<open>sampleUserMeans\<close> and the value of \<open>Date.now()\<close> as arguments.
\<close>

record event =
  ev_userId :: nat
  ev_t :: rat

text \<open>
  \<open>makeRNG\<close> of temporal.js: the seed is brought into the range of the generator, whose
  state is then stepped as in \<open>run\<close>.
\<close>

definition makeRNG :: "int \<Rightarrow> int" where
  "makeRNG seed = (let x = seed smod 2147483647 in if x \<le> 0 then x + 2147483646 else x)"

definition campusActivityPattern :: "rat list" where
  "campusActivityPattern =
     [1/10, 1/10, 1/10, 1/10, 1/10, 1/10, 1/10, 2/10,
      4/10, 8/10, 1, 12/10, 1, 6/10,
      14/10, 13/10, 11/10, 9/10, 7/10, 5/10,
      4/10, 3/10, 2/10, 1/10]"

fun offsets :: "nat \<Rightarrow> nat \<Rightarrow> rat \<Rightarrow> rat \<Rightarrow> event list \<times> int \<Rightarrow> event list \<times> int" where
  "offsets 0 userId hourStart hourLengthMs (events, x) = (events, x)"
| "offsets (Suc k) userId hourStart hourLengthMs (events, x) =
     (let (u, x1) = rng x
      in offsets k userId hourStart hourLengthMs
           (events @ [\<lparr> ev_userId = userId, ev_t = hourStart + u * hourLengthMs \<rparr>], x1))"

definition userHour :: "rat list \<Rightarrow> rat \<Rightarrow> rat \<Rightarrow> rat \<Rightarrow> nat \<Rightarrow> event list \<times> int \<Rightarrow> event list \<times> int" where
  "userHour userRates activityMultiplier hourStart hourLengthMs userId acc =
     (let baseRate = (userRates ! userId) / 24;
          adjustedRate = baseRate * activityMultiplier;
          (u, x1) = rng (snd acc)
      in if u < min (8/10) adjustedRate
         then (let (u2, x2) = rng x1;
                   numMessages = 1 + nat \<lfloor>u2 * 3\<rfloor>
               in offsets numMessages userId hourStart hourLengthMs (fst acc, x2))
         else (fst acc, x1))"

definition oneHour :: "rat list \<Rightarrow> rat \<Rightarrow> rat \<Rightarrow> nat \<Rightarrow> event list \<times> int \<Rightarrow> event list \<times> int" where
  "oneHour userRates epochStartMs hourLengthMs hour acc =
     (let hourStart = epochStartMs + of_nat hour * hourLengthMs;
          currentHour = (8 + hour) mod 24;
          activityMultiplier = campusActivityPattern ! currentHour
      in fold (userHour userRates activityMultiplier hourStart hourLengthMs)
              [0 ..< length userRates] acc)"

definition generateEventsForHours :: "rat list \<Rightarrow> nat \<Rightarrow> rat \<Rightarrow> rat \<Rightarrow> int \<Rightarrow> event list \<times> int" where
  "generateEventsForHours userRates hours epochStartMs hourLengthMs x =
     (let (events, x') = fold (oneHour userRates epochStartMs hourLengthMs) [0 ..< hours] ([], x)
      in (sort_key ev_t events, x'))"

text \<open>
  \<open>distributeEventsToSubEpochs\<close>: one draw of the generator of \<open>run\<close> per event;
  \<open>subEpochEvents[subEpoch].push\<close> throws when there is no bucket.
\<close>

definition dayMs :: rat where
  "dayMs = 24 * 60 * 60 * 1000"

definition place :: "nat \<Rightarrow> nat list list \<times> int \<Rightarrow> event \<Rightarrow> error + (nat list list \<times> int)" where
  "place totalSubEpochs acc ev =
     (let baseSubEpoch = \<lfloor>(ev_t ev / dayMs) * of_nat totalSubEpochs\<rfloor>;
          (u, seed') = rng (snd acc);
          jitter = \<lfloor>(u - 1/2) * 2\<rfloor>;
          subEpoch = nat (max 0 (min (int totalSubEpochs - 1) (baseSubEpoch + jitter)))
      in if subEpoch < length (fst acc)
         then Inr ((fst acc)[subEpoch := fst acc ! subEpoch @ [ev_userId ev]], seed')
         else Inl TypeError)"

definition distributeEventsToSubEpochs :: "event list \<Rightarrow> nat \<Rightarrow> nat \<Rightarrow> int \<Rightarrow> error + (nat list list \<times> int)" where
  "distributeEventsToSubEpochs events T subEpochsPerHour seed =
     (let totalSubEpochs = T * subEpochsPerHour
      in foldE (place totalSubEpochs) events (replicate totalSubEpochs [], seed))"

text \<open>
  All the buckets empty but the last one.
\<close>

definition lastBucket :: "nat \<Rightarrow> nat list \<Rightarrow> nat list list" where
  "lastBucket n ids = replicate (n - 1) [] @ [ids]"

section \<open>Concrete inputs\<close>

subsection \<open>Concrete adversary states\<close>

text \<open>
  An adversary observing node 1 that is told of one packet on the link 1-2 and of five
  packets on the link 1-20, all in epoch 0.
\<close>

definition adv_two_links :: adversary where
  "adv_two_links = noteContact (noteContact (newAdversary [1] 1) 0 1 2 1) 0 1 20 5"

text \<open>
  An adversary observing node 0 that is told of eight packets on the link 0-5 in epoch 0,
  rebuilds its estimate (as \<open>getGraphAnalysis\<close> does) and is then told that node 0 sends
  in epoch 1.
\<close>

definition keep_order :: "nat \<Rightarrow> nat list \<Rightarrow> nat list" where
  "keep_order i ns = ns"


definition adv_link05 :: adversary where
  "adv_link05 = noteContact (newAdversary [0] 1) 0 0 5 8"

definition adv_est05 :: adversary where
  "adv_est05 = noteSend (buildSocialGraphEstimate keep_order adv_link05) 1 0"

definition adj_only7 :: "nat \<Rightarrow> nat list" where
  "adj_only7 s = (if s = 0 then [7] else [])"

definition adj_5_and_7 :: "nat \<Rightarrow> nat list" where
  "adj_5_and_7 s = (if s = 0 then [5, 7] else [])"

text \<open>
  The candidate set as the specification words it: the estimated neighbours that are
  adjacent when there is one, the adjacency otherwise.
\<close>

definition specCandidates :: "nat list \<Rightarrow> nat list \<Rightarrow> nat set" where
  "specCandidates est nbrs =
     (if set est \<inter> set nbrs \<noteq> {} then set est \<inter> set nbrs else set nbrs)"

subsection \<open>Concrete runs\<close>

text \<open>
  Runs without cover traffic and without noise edges, with the default tier weights and an
  empty tier map (every tier reads as acquaintance). \<open>always x\<close> is a \<open>Math.random\<close>
  that returns \<open>x\<close> at every call. \<open>waiting n se r\<close> are the reply queues of \<open>n\<close> users
  of which user 0 holds one reply to \<open>r\<close>, due at sub-epoch \<open>se\<close>: the users of a
  \<open>NetworkTemporal\<close> keep their queues from one call of \<open>run\<close> to the next.
\<close>

definition defaultWeights :: "tier \<Rightarrow> rat" where
  "defaultWeights tr = (case tr of intimate \<Rightarrow> 3 | friend \<Rightarrow> 3 / 2 | acquaintance \<Rightarrow> 1)"

definition no_cover :: "nat \<Rightarrow> graph \<Rightarrow> int \<Rightarrow> nat \<Rightarrow> (nat \<Rightarrow> rat) \<Rightarrow> unit config" where
  "no_cover n g h T mr =
     \<lparr> numUsers = n, socialGraph = g, tierMap = [], optHmax = h, optT = T,
       tierWeights = defaultWeights, noiseEdgesPerEpoch = 0, mathRandom = mr,
       shuffle = keep_order, coverEnabled = False,
       recordRealMessage = (\<lambda>c s r t. c), generateCoverTraffic = (\<lambda>c t s. ([], c, s)) \<rparr>"

definition pair2 :: graph where
  "pair2 = [(0, [1]), (1, [0])]"
definition line4 :: graph where
  "line4 = [(0, [1]), (1, [0, 2]), (2, [1, 3]), (3, [2])]"

definition always :: "rat \<Rightarrow> nat \<Rightarrow> rat" where "always x i = x"

definition waiting :: "nat \<Rightarrow> nat \<Rightarrow> nat \<Rightarrow> reply list list" where
  "waiting n se r = [\<lparr> subEpoch = int se, to = r, rtype = delayed \<rparr>] # replicate (n - 1) []"

definition start :: "unit config \<Rightarrow> int \<Rightarrow> reply list list \<Rightarrow> unit sim" where
  "start cfg s queues = initialSim cfg s queues (newAdversary [0] 1) ()"

definition replyCounts :: "error + 'c sim \<Rightarrow> error + (nat \<times> nat \<times> nat)" where
  "replyCounts r =
     map_sum id (\<lambda>st. (length (filter m_isReply (concat (sentLog st))), accepts st, skips st)) r"

definition logged :: "error + 'c sim \<Rightarrow> error + (nat \<times> nat \<times> nat list \<times> bool \<times> bool) list" where
  "logged r = map_sum id (\<lambda>st. map (\<lambda>m. (m_sender m, m_recipient m, m_path m, m_isReply m, m_dummy m))
                                   (concat (sentLog st))) r"

definition run_pair_reply :: "error + unit sim" where
  "run_pair_reply = mainLoop (no_cover 2 pair2 1 1 (always (1 / 4))) (replicate 6 [])
                      (start (no_cover 2 pair2 1 1 (always (1 / 4))) 42 (waiting 2 0 1))"

definition run_line_reply :: "error + unit sim" where
  "run_line_reply = mainLoop (no_cover 4 line4 1 1 (always (1 / 4))) (replicate 6 [])
                      (start (no_cover 4 line4 1 1 (always (1 / 4))) 42 (waiting 4 0 3))"

definition late_start :: "unit sim" where
  "late_start = start (no_cover 2 pair2 1 12 (always (1 / 4))) 42 (waiting 2 66 1)"

definition run_late :: "error + unit sim" where
  "run_late = foldE (subEpochStep (no_cover 2 pair2 1 12 (always (1 / 4))) (replicate 72 []))
                [66 ..< optT (no_cover 2 pair2 1 12 (always (1 / 4))) * 6] late_start"






section \<open>Properties of the adversary\<close>

lemma decimal_small:
  "decimal 0 = ''0''" "decimal 1 = ''1''" "decimal 2 = ''2''" "decimal 5 = ''5''"
  "decimal 20 = ''20''" "decimal (Suc 0) = ''1''"
  by (simp_all add: decimal.simps)

text \<open>
  C6. The volume that \<open>_analyzeRelationship\<close> computes for the pair (1,2) is 6 although
  only one packet was recorded for that pair: the key \<open>1-20-0\<close> of the pair (1,20)
  starts with the edge key \<open>1-2\<close> and its five packets are added.
\<close>

theorem analyzeRelationship_counts_other_pair:
  "totalVolume (a_strength (analyzeRelationship adv_two_links 1 2)) = 6
   \<and> pairVolume adv_two_links 1 2 = 1
   \<and> linkCounts adv_two_links = [(''1-2-0'', 1), (''1-20-0'', 5)]"
  by (simp add: adv_two_links_def analyzeRelationship_def volumeByEpoch_def pairVolume_def
      noteContact_def newAdversary_def timeKey_def edgeKey_def decimal_small get_or_def
      set_add_def Let_def)

subsection \<open>The candidate recipients of a send\<close>

lemma adv_link05_fields:
  "linkCounts adv_link05 = [(''0-5-0'', 8)]" "activityLog adv_link05 = [(0, [0, 5])]"
  "guesses adv_link05 = []" "sendEvents adv_link05 = []"
  by (simp_all add: adv_link05_def noteContact_def newAdversary_def timeKey_def edgeKey_def
      decimal_small get_or_def set_add_def Let_def)

lemma nodePairs_link05: "linkCounts adv = [(''0-5-0'', 8)] \<Longrightarrow> nodePairs adv = [(''0'', ''5'')]"
  by (simp add: nodePairs_def matchPair_def isDigit_def set_add_def)

lemma numberOf_small: "numberOf ''0'' = 0" "numberOf ''5'' = 5"
  by (simp_all add: numberOf_def digitVal_def)

lemma confidence_link05:
  "linkCounts adv = [(''0-5-0'', 8)] \<Longrightarrow> activityLog adv = [(0, [0, 5])] \<Longrightarrow> guesses adv = []
   \<Longrightarrow> a_confidence (analyzeRelationship adv 0 5) = 28 / 75"
  by (simp add: analyzeRelationship_def volumeByEpoch_def countDirectedTraffic_def edgeKey_def
      decimal_small Let_def js_sqrt_def)

lemma rebuild_link05:
  "estimatedGraph (buildSocialGraphEstimate shuf adv_link05) = [(0, [5]), (5, [0])]"
  "sendEvents (buildSocialGraphEstimate shuf adv_link05) = []"
  "guesses (buildSocialGraphEstimate shuf adv_link05) = []"
  by (simp_all add: buildSocialGraphEstimate_def detectCommunities_def Let_def nodePairs_link05
      adv_link05_fields analyzePair_def numberOf_small confidence_link05 addEstimatedEdge_def
      has_key_def get_or_def set_add_def)

lemma adv_est05_fields:
  "estimatedGraph adv_est05 = [(0, [5]), (5, [0])]" "sendEvents adv_est05 = [(1, [0])]"
  "guesses adv_est05 = []"
  by (simp_all add: adv_est05_def noteSend_def rebuild_link05 get_or_def set_add_def)

lemma best_of_mem: "best_of xs = Some b \<Longrightarrow> b \<in> set xs"
  by (induction xs arbitrary: b) (auto split: option.splits if_splits)

lemma best_of_nonempty: "xs \<noteq> [] \<Longrightarrow> best_of xs \<noteq> None"
  by (cases xs) (auto split: option.splits)

lemma scores_keys:
  "fst ` set (foldl (\<lambda>m v. AList.update v (f v) m) m0 cands) = fst ` set m0 \<union> set cands"
  by (induction cands arbitrary: m0) (auto simp: AList.dom_update)

lemma guesses_updateHistory: "guesses (updateHistory adv s r) = guesses adv"
  by (simp add: updateHistory_def Let_def)

text \<open>
  C7, as the code has it. With a non-empty adjacency, the candidates are the estimated
  neighbours of the sender that are adjacent whenever the estimate has any neighbour
  for the sender, and the adjacency otherwise. No guess is made when the candidates are
  empty; otherwise one guess is appended, and its recipient is a candidate.
\<close>

theorem inferSender_candidates:
  assumes "adjacencyLookup s \<noteq> []"
  shows "let est = get_or (estimatedGraph adv) s [];
             cands = (if est \<noteq> [] then filter (\<lambda>n. n \<in> set (adjacencyLookup s)) est
                      else adjacencyLookup s)
         in candidateSet adv (adjacencyLookup s) s = cands \<and>
            (if cands = [] then inferSender t adjacencyLookup adv s = adv
             else \<exists>v \<in> set cands.
                    guesses (inferSender t adjacencyLookup adv s)
                    = guesses adv @ [\<lparr> g_t = t, g_sender = s, guessRecipient = v \<rparr>])"
proof -
  define est where "est = get_or (estimatedGraph adv) s []"
  define cands where
    "cands = (if est \<noteq> [] then filter (\<lambda>n. n \<in> set (adjacencyLookup s)) est
              else adjacencyLookup s)"
  have c: "candidateSet adv (adjacencyLookup s) s = cands"
    by (auto simp: candidateSet_def cands_def est_def get_or_def split: option.splits)
  have e: "inferSender t adjacencyLookup adv s = adv" if "cands = []"
    using that assms by (simp add: inferSender_def c Let_def)
  have g: "\<exists>v \<in> set cands. guesses (inferSender t adjacencyLookup adv s)
             = guesses adv @ [\<lparr> g_t = t, g_sender = s, guessRecipient = v \<rparr>]"
    if ne: "cands \<noteq> []"
  proof -
    define scores where "scores = foldl (\<lambda>m v. AList.update v (score adv t s v) m) [] cands"
    have "fst ` set scores = set cands"
      unfolding scores_def by (simp add: scores_keys)
    with ne have "scores \<noteq> []" by auto
    then obtain b where b: "best_of scores = Some b"
      using best_of_nonempty by blast
    then have "fst b \<in> fst ` set scores"
      using best_of_mem by blast
    then have "fst b \<in> set cands"
      using \<open>fst ` set scores = set cands\<close> by simp
    moreover have "guesses (inferSender t adjacencyLookup adv s)
                   = guesses adv @ [\<lparr> g_t = t, g_sender = s, guessRecipient = fst b \<rparr>]"
      using assms ne b
      by (simp add: inferSender_def c Let_def scores_def guesses_updateHistory)
    ultimately show ?thesis by blast
  qed
  have "candidateSet adv (adjacencyLookup s) s = cands \<and>
        (if cands = [] then inferSender t adjacencyLookup adv s = adv
         else \<exists>v \<in> set cands.
                guesses (inferSender t adjacencyLookup adv s)
                = guesses adv @ [\<lparr> g_t = t, g_sender = s, guessRecipient = v \<rparr>])"
    using c e g by simp
  then show ?thesis
    unfolding Let_def cands_def est_def .
qed

theorem inferSender_candidates_witness:
  "guesses (inferSender 1 adj_5_and_7 adv_est05 0)
   = [\<lparr> g_t = 1, g_sender = 0, guessRecipient = 5 \<rparr>]"
  using inferSender_candidates [of adj_5_and_7 0 adv_est05 1]
  by (simp add: adj_5_and_7_def adv_est05_fields get_or_def Let_def)

text \<open>
  The candidate set of the specification is \<open>{7}\<close> for a sender whose estimated neighbour
  5 is not adjacent, and a guess is promised. \<open>inferEpoch\<close> has no candidate and makes
  no guess.
\<close>

theorem candidates_empty_counterexample:
  "specCandidates (get_or (estimatedGraph adv_est05) 0 []) (adj_only7 0) = {7}
   \<and> candidateSet adv_est05 (adj_only7 0) 0 = []
   \<and> get_or (sendEvents adv_est05) 1 [] = [0]
   \<and> guesses (inferEpoch keep_order adv_est05 1 adj_only7) = []"
  by (simp add: specCandidates_def candidateSet_def adj_only7_def adv_est05_fields get_or_def
      inferEpoch_def inferSenders_def inferSender_def Let_def)

section \<open>Properties of routing\<close>





























lemma pw_loop_mem: "pw_loop r xs = Some item \<Longrightarrow> item \<in> fst ` set xs"
  by (induction r xs rule: pw_loop.induct) (auto split: if_splits)

lemma pickWeighted_mem:
  assumes "pickWeighted items weights u = Some r"
  shows "r \<in> set items"
proof (cases "pw_loop (u * sum_list weights) (zip items weights)")
  case None
  with assms show ?thesis by (cases items) (auto simp: pickWeighted_def split: if_splits)
next
  case (Some item)
  with assms have "r = item" by (simp add: pickWeighted_def)
  with pw_loop_mem [OF Some] show ?thesis by (auto dest: set_zip_leftD)
qed

section \<open>Properties of the simulation loop\<close>

lemma foldE_inv:
  assumes "foldE f xs s = Inr s'" "P s"
    and "\<And>s x s'. P s \<Longrightarrow> x \<in> set xs \<Longrightarrow> f s x = Inr s' \<Longrightarrow> P s'"
  shows "P s'"
  using assms
proof (induction xs arbitrary: s)
  case Nil
  then show ?case by simp
next
  case (Cons x xs)
  from Cons.prems(1) obtain s1 where s1: "f s x = Inr s1" "foldE f xs s1 = Inr s'"
    by (auto split: sum.splits)
  have "P s1" using Cons.prems(3) [OF Cons.prems(2) _ s1(1)] by simp
  show ?case
    by (rule Cons.IH [OF s1(2) \<open>P s1\<close>]) (use Cons.prems(3) in auto)
qed

lemma logMessage_Inr:
  assumes "logMessage cfg t s r mid p d rp st = Inr st'"
  shows "t < length (sentLog st)"
    and "\<exists>hts. sentLog st' = (sentLog st)[t := sentLog st ! t @
            [\<lparr> m_t = t, m_sender = s, m_recipient = r, m_id = mid, m_path = p,
               m_hopTimes = hts, m_dummy = d, m_isReply = rp \<rparr>]]"
    and "accepts st' = accepts st" and "skips st' = skips st"
    and "activeThreads st' = activeThreads st"
    and "replyQueue st' = replyQueue st"
    and "advState st' = noteSend (advState st) t s"
  using assms
  by (auto simp: logMessage_def Let_def split: prod.splits if_splits)

lemma recordReal_frame [simp]:
  "sentLog (recordReal cfg s r t st) = sentLog st"
  "accepts (recordReal cfg s r t st) = accepts st"
  "skips (recordReal cfg s r t st) = skips st"
  "activeThreads (recordReal cfg s r t st) = activeThreads st"
  "advState (recordReal cfg s r t st) = advState st"
  "replyQueue (recordReal cfg s r t st) = replyQueue st"
  by (simp_all add: recordReal_def)

lemma enqueueReply_frame [simp]:
  "sentLog (enqueueReply cfg r s t st) = sentLog st"
  "accepts (enqueueReply cfg r s t st) = accepts st"
  "skips (enqueueReply cfg r s t st) = skips st"
  "activeThreads (enqueueReply cfg r s t st) = activeThreads st"
  "advState (enqueueReply cfg r s t st) = advState st"
  by (simp_all add: enqueueReply_def Let_def split: prod.splits option.splits)

lemma threadFor_frame [simp]:
  "sentLog (threadFor u r st) = sentLog st"
  "accepts (threadFor u r st) = accepts st"
  "skips (threadFor u r st) = skips st"
  "advState (threadFor u r st) = advState st"
  by (simp_all add: threadFor_def)

text \<open>The ways a step can end normally.\<close>

lemma emitReply_cases:
  assumes "emitReply cfg t u r mid th st = Inr st'"
  obtains (skipped) seed2 where
      "selectPath (socialGraph cfg) u r (optHmax cfg) (pathDiversityTracker st) (rngSeed st)
       = Inr (None, seed2)"
      "st' = st\<lparr> rngSeed := seed2, skips := skips st + 1 \<rparr>"
  | (logged) p seed2 st4 where
      "selectPath (socialGraph cfg) u r (optHmax cfg) (pathDiversityTracker st) (rngSeed st)
       = Inr (Some p, seed2)"
      "logMessage cfg t u r mid p False True (st\<lparr> rngSeed := seed2 \<rparr>) = Inr st4"
      "st' = enqueueReply cfg r u t
               ((recordReal cfg u r t st4)\<lparr> activeThreads :=
                  AList.update (sortedPairKey u r)
                    (th\<lparr> messageCount := messageCount th + 1, lastActive := t \<rparr>)
                    (activeThreads (recordReal cfg u r t st4)) \<rparr>)"
proof -
  from assms have r: "r < numUsers cfg"
    by (simp add: emitReply_def split: if_splits)
  show thesis
  proof (cases "selectPath (socialGraph cfg) u r (optHmax cfg) (pathDiversityTracker st) (rngSeed st)")
    case (Inl e)
    with assms r show ?thesis by (simp add: emitReply_def)
  next
    case (Inr ps)
    obtain po seed2 where ps: "ps = (po, seed2)" by (cases ps)
    show ?thesis
    proof (cases po)
      case None
      with assms r Inr ps show ?thesis
        by (intro skipped [of seed2]) (simp_all add: emitReply_def)
    next
      case (Some p)
      show ?thesis
      proof (cases "logMessage cfg t u r mid p False True (st\<lparr> rngSeed := seed2 \<rparr>)")
        case (Inl e)
        with assms r Inr ps Some show ?thesis by (simp add: emitReply_def)
      next
        case l: (Inr st4)
        with assms r Inr ps Some show ?thesis
          by (intro logged [of p seed2 st4]) (simp_all add: emitReply_def Let_def)
      qed
    qed
  qed
qed

lemma newSend_cases:
  assumes "newSend cfg se st uId = Inr st'"
  obtains (idle) "st' = st"
  | (nobody) "st' = st\<lparr> mrDraws := mrDraws st + 1 \<rparr>"
  | (logged) r p seed2 st2 where
      "pickWeighted (neighbors (socialGraph cfg) uId)
         (map (\<lambda>nId. weightOf cfg (tierOf (tierMap cfg) uId nId)) (neighbors (socialGraph cfg) uId))
         (mathRandom cfg (mrDraws st)) = Some r"
      "selectPath (socialGraph cfg) uId r (optHmax cfg) (pathDiversityTracker st) (rngSeed st)
       = Inr (Some p, seed2)"
      "logMessage cfg (se div 6) uId r (SendId (se div 6) se uId (mathRandom cfg (mrDraws st + 1)))
         p False False (st\<lparr> mrDraws := mrDraws st + 2, rngSeed := seed2 \<rparr>) = Inr st2"
      "st' = enqueueReply cfg r uId (se div 6) (recordReal cfg uId r (se div 6) st2)"
proof (cases "uId \<ge> numUsers cfg \<or> length (neighbors (socialGraph cfg) uId) = 0")
  case True
  with assms have "st' = st" by (auto simp: newSend_def Let_def split: if_splits)
  then show ?thesis by (rule idle)
next
  case False
  let ?pick = "pickWeighted (neighbors (socialGraph cfg) uId)
         (map (\<lambda>nId. weightOf cfg (tierOf (tierMap cfg) uId nId)) (neighbors (socialGraph cfg) uId))
         (mathRandom cfg (mrDraws st))"
  show ?thesis
  proof (cases ?pick)
    case None
    with assms False have "st' = st\<lparr> mrDraws := mrDraws st + 1 \<rparr>"
      by (simp add: newSend_def Let_def)
    then show ?thesis by (rule nobody)
  next
    case (Some r)
    with assms False have r: "r < numUsers cfg"
      by (simp add: newSend_def Let_def split: if_splits)
    show ?thesis
    proof (cases "selectPath (socialGraph cfg) uId r (optHmax cfg) (pathDiversityTracker st) (rngSeed st)")
      case (Inl e)
      with assms False Some r show ?thesis by (simp add: newSend_def Let_def)
    next
      case (Inr ps)
      obtain po seed2 where ps: "ps = (po, seed2)" by (cases ps)
      show ?thesis
      proof (cases po)
        case None
        with assms False Some r Inr ps show ?thesis by (simp add: newSend_def Let_def)
      next
        case p: (Some p)
        show ?thesis
        proof (cases "logMessage cfg (se div 6) uId r
                        (SendId (se div 6) se uId (mathRandom cfg (mrDraws st + 1)))
                        p False False (st\<lparr> mrDraws := mrDraws st + 2, rngSeed := seed2 \<rparr>)")
          case (Inl e)
          with assms False Some r Inr ps p show ?thesis by (simp add: newSend_def Let_def)
        next
          case l: (Inr st2)
          with assms False Some r Inr ps p show ?thesis
            by (intro logged [of r p seed2 st2]) (simp_all add: newSend_def Let_def)
        qed
      qed
    qed
  qed
qed

lemma injectCover_cases:
  assumes "injectCover cfg se st ft = Inr st'"
  obtains p seed2 where
    "selectPath (socialGraph cfg) (fst ft) (snd ft) (optHmax cfg) (pathDiversityTracker st) (rngSeed st)
     = Inr (Some p, seed2)"
    "logMessage cfg (se div 6) (fst ft) (snd ft)
       (DummyId (se div 6) (fst ft) (snd ft) (mathRandom cfg (mrDraws st))) p True False
       (st\<lparr> rngSeed := seed2, mrDraws := mrDraws st + 1 \<rparr>) = Inr st'"
proof (cases "selectPath (socialGraph cfg) (fst ft) (snd ft) (optHmax cfg) (pathDiversityTracker st) (rngSeed st)")
  case (Inl e)
  with assms show ?thesis by (simp add: injectCover_def Let_def)
next
  case (Inr ps)
  obtain po seed2 where ps: "ps = (po, seed2)" by (cases ps)
  show ?thesis
  proof (cases po)
    case None
    with assms Inr ps show ?thesis by (simp add: injectCover_def Let_def)
  next
    case (Some p)
    with assms Inr ps show ?thesis
      by (intro that [of p seed2]) (simp_all add: injectCover_def Let_def)
  qed
qed

lemma replyEntry_cases:
  assumes "replyEntry cfg se u st rp = Inr st'"
  obtains (declined) st2 where
      "st2 = threadFor u (to rp) (st\<lparr> mrDraws := mrDraws st + 1 \<rparr>)"
      "\<not> fst (shouldContinue (get_or (activeThreads st2) (sortedPairKey u (to rp)) (newThread u (to rp)))
                (se div 6) (rngSeed st2))"
      "st' = st2\<lparr> rngSeed := snd (shouldContinue
                 (get_or (activeThreads st2) (sortedPairKey u (to rp)) (newThread u (to rp)))
                 (se div 6) (rngSeed st2)) \<rparr>"
  | (accepted) st2 th where
      "st2 = threadFor u (to rp) (st\<lparr> mrDraws := mrDraws st + 1 \<rparr>)"
      "th = get_or (activeThreads st2) (sortedPairKey u (to rp)) (newThread u (to rp))"
      "fst (shouldContinue th (se div 6) (rngSeed st2))"
      "emitReply cfg (se div 6) u (to rp) (ReplyId se u (mathRandom cfg (mrDraws st))) th
         (st2\<lparr> rngSeed := snd (shouldContinue th (se div 6) (rngSeed st2)),
               accepts := accepts st2 + 1 \<rparr>) = Inr st'"
proof -
  define st2 where "st2 = threadFor u (to rp) (st\<lparr> mrDraws := mrDraws st + 1 \<rparr>)"
  define th where "th = get_or (activeThreads st2) (sortedPairKey u (to rp)) (newThread u (to rp))"
  show thesis
  proof (cases "fst (shouldContinue th (se div 6) (rngSeed st2))")
    case True
    with assms show ?thesis
      by (intro accepted [of st2 th]) (simp_all add: replyEntry_def Let_def st2_def th_def)
  next
    case False
    with assms show ?thesis
      by (intro declined [of st2]) (simp_all add: replyEntry_def Let_def st2_def th_def)
  qed
qed

lemma userReplies_cases:
  assumes "userReplies cfg se st u = Inr st'"
  obtains st1 where
    "foldE (replyEntry cfg se u) (filter (\<lambda>r. subEpoch r = int se) (replyQueue st ! u)) st = Inr st1"
    "st' = st1\<lparr> replyQueue := (replyQueue st1)[u :=
              filter (\<lambda>r. subEpoch r > int se) (replyQueue st1 ! u)] \<rparr>"
  using assms by (auto simp: userReplies_def split: sum.splits)

lemma coverStep_cases:
  assumes "coverStep cfg se st = Inr st'"
  obtains (off) "st' = st"
  | (on) cms mgr seed1 where
      "foldE (injectCover cfg se) cms (st\<lparr> coverTrafficMgr := mgr, rngSeed := seed1 \<rparr>) = Inr st'"
proof (cases "se mod 6 = 0 \<and> coverEnabled cfg")
  case True
  obtain cms mgr seed1 where
    "generateCoverTraffic cfg (coverTrafficMgr st) (se div 6) (rngSeed st) = (cms, mgr, seed1)"
    by (cases "generateCoverTraffic cfg (coverTrafficMgr st) (se div 6) (rngSeed st)") auto
  with True assms
  have "foldE (injectCover cfg se) cms (st\<lparr> coverTrafficMgr := mgr, rngSeed := seed1 \<rparr>) = Inr st'"
    by (simp add: coverStep_def)
  then show ?thesis by (rule on)
next
  case False
  with assms show ?thesis by (intro off) (auto simp: coverStep_def)
qed

lemma materialize_frame:
  assumes "materialize cfg se st = Inr st'"
  shows "sentLog st' = sentLog st" "accepts st' = accepts st" "skips st' = skips st"
    "activeThreads st' = activeThreads st"
  using assms
  by (auto simp: materialize_def Let_def split: if_splits sum.splits prod.splits)

lemma subEpochStep_cases:
  assumes "subEpochStep cfg evs st se = Inr st'"
  obtains st1 st2 st3 where
    "foldE (userReplies cfg se) [0 ..< numUsers cfg] st = Inr st1"
    "foldE (newSend cfg se) (evs ! se) st1 = Inr st2"
    "coverStep cfg se st2 = Inr st3"
    "materialize cfg se st3 = Inr st'"
  using assms by (auto simp: subEpochStep_def split: sum.splits)

text \<open>
  A property of the state that every logged message keeps, or a property of the log that
  depends on the messages only, carries over the whole loop once the three places that
  log a message keep it.
\<close>

lemma subEpochStep_inv:
  assumes step: "subEpochStep cfg evs st se = Inr st'" and P: "P st"
    and frame: "\<And>s s'. P s \<Longrightarrow> sentLog s' = sentLog s \<Longrightarrow> accepts s' = accepts s
                  \<Longrightarrow> skips s' = skips s \<Longrightarrow> activeThreads s' = activeThreads s \<Longrightarrow> P s'"
    and reply: "\<And>s u rp s'. P s \<Longrightarrow> replyEntry cfg se u s rp = Inr s' \<Longrightarrow> P s'"
    and send: "\<And>s src dst tr sd seed2 mid p d s'. P s
                  \<Longrightarrow> selectPath (socialGraph cfg) src dst (optHmax cfg) tr sd = Inr (Some p, seed2)
                  \<Longrightarrow> logMessage cfg (se div 6) src dst mid p d False s = Inr s'
                  \<Longrightarrow> d \<or> dst \<in> set (neighbors (socialGraph cfg) src) \<Longrightarrow> P s'"
  shows "P st'"
proof -
  from step obtain st1 st2 st3 where
    1: "foldE (userReplies cfg se) [0 ..< numUsers cfg] st = Inr st1"
    and 2: "foldE (newSend cfg se) (evs ! se) st1 = Inr st2"
    and 3: "coverStep cfg se st2 = Inr st3"
    and 4: "materialize cfg se st3 = Inr st'"
    by (rule subEpochStep_cases)
  have ur: "P s'" if "P s" "userReplies cfg se s u = Inr s'" for s u s'
  proof -
    from that(2) obtain s1 where
      f: "foldE (replyEntry cfg se u) (filter (\<lambda>r. subEpoch r = int se) (replyQueue s ! u)) s = Inr s1"
      and e: "s' = s1\<lparr> replyQueue := (replyQueue s1)[u :=
              filter (\<lambda>r. subEpoch r > int se) (replyQueue s1 ! u)] \<rparr>"
      by (rule userReplies_cases)
    have "P s1"
      using f that(1) reply by (rule foldE_inv [where P = P])
    then show ?thesis by (rule frame) (simp_all add: e)
  qed
  have ns: "P s'" if "P s" "newSend cfg se s uId = Inr s'" for s uId s'
    using that(2)
  proof (cases rule: newSend_cases)
    case idle
    with that show ?thesis by simp
  next
    case nobody
    show ?thesis by (rule frame [OF that(1)]) (simp_all add: nobody)
  next
    case (logged r p seed2 s2)
    have "P (s\<lparr> mrDraws := mrDraws s + 2, rngSeed := seed2 \<rparr>)"
      by (rule frame [OF that(1)]) simp_all
    moreover have "False \<or> r \<in> set (neighbors (socialGraph cfg) uId)"
      using pickWeighted_mem [OF logged(1)] by simp
    ultimately have "P s2" using logged(2,3) by (intro send [of _ uId r _ _ p seed2 _ False s2]) simp_all
    then show ?thesis by (rule frame) (simp_all add: logged(4))
  qed
  have ic: "P s'" if "P s" "injectCover cfg se s ft = Inr s'" for s ft s'
    using that(2)
  proof (cases rule: injectCover_cases)
    case (1 p seed2)
    have "P (s\<lparr> rngSeed := seed2, mrDraws := mrDraws s + 1 \<rparr>)"
      by (rule frame [OF that(1)]) simp_all
    then show ?thesis using 1 by (rule send) simp
  qed
  have "P st1" using 1 P by (rule foldE_inv [where P = P]) (rule ur)
  with 2 have "P st2" by (rule foldE_inv [where P = P]) (rule ns)
  have "P st3"
    using 3
  proof (cases rule: coverStep_cases)
    case off
    with \<open>P st2\<close> show ?thesis by simp
  next
    case (on cms mgr seed1)
    have "P (st2\<lparr> coverTrafficMgr := mgr, rngSeed := seed1 \<rparr>)"
      by (rule frame [OF \<open>P st2\<close>]) simp_all
    with on show ?thesis by (rule foldE_inv [where P = P]) (rule ic)
  qed
  then show ?thesis by (rule frame) (simp_all add: materialize_frame [OF 4])
qed

subsection \<open>Replies logged, accepted and skipped\<close>

definition repliesLogged :: "'c sim \<Rightarrow> nat" where
  "repliesLogged st = length (filter m_isReply (concat (sentLog st)))"

definition balanced :: "'c sim \<Rightarrow> bool" where
  "balanced st = (repliesLogged st + skips st = accepts st)"

definition fresh :: "string \<Rightarrow> 'c sim \<Rightarrow> bool" where
  "fresh k st = (case map_of (activeThreads st) k of
                   None \<Rightarrow> True
                 | Some th \<Rightarrow> messageCount th = 0 \<and> lastActive th = 0)"

definition threadReplies :: "string \<Rightarrow> 'c sim \<Rightarrow> message list" where
  "threadReplies k st =
     filter (\<lambda>m. m_isReply m \<and> sortedPairKey (m_sender m) (m_recipient m) = k) (concat (sentLog st))"

definition silent :: "string \<Rightarrow> message list \<Rightarrow> 'c sim \<Rightarrow> bool" where
  "silent k ms st = (fresh k st \<and> threadReplies k st = ms)"

lemma filter_concat_update:
  "t < length xs \<Longrightarrow>
   length (filter P (concat (xs[t := xs ! t @ [m]])))
   = length (filter P (concat xs)) + (if P m then 1 else 0)"
proof (induction xs arbitrary: t)
  case Nil
  then show ?case by simp
next
  case (Cons x xs)
  then show ?case by (cases t) auto
qed

lemma filter_concat_update_other:
  "t < length xs \<Longrightarrow> \<not> P m \<Longrightarrow> filter P (concat (xs[t := xs ! t @ [m]])) = filter P (concat xs)"
proof (induction xs arbitrary: t)
  case Nil
  then show ?case by simp
next
  case (Cons x xs)
  then show ?case by (cases t) auto
qed

lemma logMessage_balanced:
  assumes "logMessage cfg t s r mid p d rp st = Inr st'"
  shows "repliesLogged st' = repliesLogged st + (if rp then 1 else 0)"
  using logMessage_Inr(1,2) [OF assms]
  by (auto simp: repliesLogged_def filter_concat_update)

lemma replyEntry_balanced:
  assumes "replyEntry cfg se u st rp = Inr st'" "balanced st"
  shows "balanced st'"
  using assms(1)
proof (cases rule: replyEntry_cases)
  case (declined st2)
  with assms(2) show ?thesis by (simp add: balanced_def repliesLogged_def)
next
  case (accepted st2 th)
  let ?st3 = "st2\<lparr> rngSeed := snd (shouldContinue th (se div 6) (rngSeed st2)),
                     accepts := accepts st2 + 1 \<rparr>"
  have b: "repliesLogged ?st3 + skips ?st3 + 1 = accepts ?st3"
    using assms(2) accepted(1) by (simp add: balanced_def repliesLogged_def)
  from accepted(4) show ?thesis
  proof (cases rule: emitReply_cases)
    case (skipped seed2)
    with b show ?thesis by (simp add: balanced_def repliesLogged_def)
  next
    case (logged p seed2 st4)
    from logMessage_balanced [OF logged(2)] logMessage_Inr(3,4) [OF logged(2)] b
    show ?thesis by (simp add: balanced_def repliesLogged_def logged(3))
  qed
qed

lemma subEpochStep_balanced:
  assumes "subEpochStep cfg evs st se = Inr st'" "balanced st"
  shows "balanced st'"
  using assms
proof (rule subEpochStep_inv [where P = balanced])
  fix s s' :: "'a sim"
  assume "balanced s" "sentLog s' = sentLog s" "accepts s' = accepts s" "skips s' = skips s"
  then show "balanced s'" by (simp add: balanced_def repliesLogged_def)
next
  fix s u rp s'
  assume "balanced s" "replyEntry cfg se u s rp = Inr s'"
  then show "balanced s'" using replyEntry_balanced by blast
next
  fix s :: "'a sim" and src dst mid p d s'
  assume "balanced s" "logMessage cfg (se div 6) src dst mid p d False s = Inr s'"
  with logMessage_balanced [of cfg "se div 6" src dst mid p d False s s'] logMessage_Inr(3,4) [of cfg "se div 6" src dst mid p d False s s']
  show "balanced s'" by (simp add: balanced_def)
qed

lemma mainLoop_balanced:
  assumes "mainLoop cfg evs st = Inr st'" "balanced st"
  shows "balanced st'"
  using assms unfolding mainLoop_def
  by (rule foldE_inv [where P = balanced]) (rule subEpochStep_balanced)

lemma initialSim_balanced: "balanced (initialSim cfg seed0 queues a mgr)"
  by (simp add: balanced_def repliesLogged_def initialSim_def)

subsection \<open>Threads that stay silent\<close>

lemma threadReplies_logMessage:
  assumes "logMessage cfg t s r mid p d rp st = Inr st'" "\<not> rp \<or> sortedPairKey s r \<noteq> k"
  shows "threadReplies k st' = threadReplies k st"
  using logMessage_Inr(1,2) [OF assms(1)] assms(2)
  by (auto simp: threadReplies_def filter_concat_update_other)

lemma logMessage_silent:
  assumes "logMessage cfg t s r mid p d rp st = Inr st'" "silent k ms st"
    "\<not> rp \<or> sortedPairKey s r \<noteq> k"
  shows "silent k ms st'"
  using threadReplies_logMessage [OF assms(1,3)] logMessage_Inr(5) [OF assms(1)] assms(2)
  by (simp add: silent_def fresh_def)

lemma silent_frame:
  "silent k ms s \<Longrightarrow> sentLog s' = sentLog s \<Longrightarrow> activeThreads s' = activeThreads s \<Longrightarrow> silent k ms s'"
  by (simp add: silent_def fresh_def threadReplies_def)

lemma threadFor_silent:
  assumes "silent k ms st"
  shows "silent k ms (threadFor u r st)"
    and "sortedPairKey u r = k \<Longrightarrow>
         messageCount (get_or (activeThreads (threadFor u r st)) k (newThread u r)) = 0
         \<and> lastActive (get_or (activeThreads (threadFor u r st)) k (newThread u r)) = 0"
  using assms
  by (auto simp: silent_def fresh_def threadReplies_def threadFor_def update_conv' newThread_def
      get_or_def has_key_def split: option.splits)

lemma replyEntry_silent:
  assumes "replyEntry cfg se u st rp = Inr st'" "silent k ms st" "se div 6 > 10"
  shows "silent k ms st'"
  using assms(1)
proof (cases rule: replyEntry_cases)
  case (declined st2)
  have "silent k ms st2"
    unfolding declined(1) by (rule threadFor_silent(1)) (rule silent_frame [OF assms(2)], simp_all)
  then show ?thesis unfolding declined(3) by (rule silent_frame) simp_all
next
  case (accepted st2 th)
  have s0: "silent k ms (st\<lparr> mrDraws := mrDraws st + 1 \<rparr>)"
    by (rule silent_frame [OF assms(2)]) simp_all
  have s2: "silent k ms st2"
    unfolding accepted(1) by (rule threadFor_silent(1) [OF s0])
  let ?st3 = "st2\<lparr> rngSeed := snd (shouldContinue th (se div 6) (rngSeed st2)),
                     accepts := accepts st2 + 1 \<rparr>"
  have s3: "silent k ms ?st3" by (rule silent_frame [OF s2]) simp_all
  have nk: "sortedPairKey u (to rp) \<noteq> k"
  proof
    assume e: "sortedPairKey u (to rp) = k"
    from threadFor_silent(2) [OF s0 e]
    have "messageCount th = 0 \<and> lastActive th = 0"
      unfolding accepted(2) accepted(1) e .
    with assms(3) have "\<not> fst (shouldContinue th (se div 6) (rngSeed st2))"
      by (simp add: shouldContinue_def)
    with accepted(3) show False by simp
  qed
  from accepted(4) show ?thesis
  proof (cases rule: emitReply_cases)
    case (skipped seed2)
    show ?thesis unfolding skipped(2) by (rule silent_frame [OF s3]) simp_all
  next
    case (logged p seed2 st4)
    have "silent k ms (?st3\<lparr> rngSeed := seed2 \<rparr>)"
      by (rule silent_frame [OF s3]) simp_all
    from logMessage_silent [OF logged(2) this] nk
    have s4: "silent k ms st4" by simp
    then show ?thesis
      using nk by (simp add: logged(3) silent_def fresh_def threadReplies_def update_conv')
  qed
qed

lemma subEpochStep_silent:
  assumes "subEpochStep cfg evs st se = Inr st'" "silent k ms st" "se div 6 > 10"
  shows "silent k ms st'"
  using assms(1,2)
proof (rule subEpochStep_inv [where P = "silent k ms"])
  fix s s' :: "'a sim"
  assume "silent k ms s" "sentLog s' = sentLog s" "activeThreads s' = activeThreads s"
  then show "silent k ms s'" by (rule silent_frame)
next
  fix s u rp s'
  assume "silent k ms s" "replyEntry cfg se u s rp = Inr s'"
  then show "silent k ms s'" using replyEntry_silent assms(3) by blast
next
  fix s :: "'a sim" and src dst mid p d s'
  assume "silent k ms s" "logMessage cfg (se div 6) src dst mid p d False s = Inr s'"
  then show "silent k ms s'" using logMessage_silent by blast
qed

lemma late_epochs_silent:
  assumes "foldE (subEpochStep cfg evs) ses st = Inr st'" "silent k ms st"
    "\<forall>se \<in> set ses. se div 6 > 10"
  shows "silent k ms st'"
  using assms(1,2)
proof (rule foldE_inv [where P = "silent k ms"])
  fix s se s'
  assume "silent k ms s" "se \<in> set ses" "subEpochStep cfg evs s se = Inr s'"
  with assms(3) show "silent k ms s'" using subEpochStep_silent by blast
qed

subsection \<open>The claims about replies\<close>

lemma is_Inr: "isl r = False \<Longrightarrow> r = Inr (projr r)"
  by (cases r) auto

lemma replyCounts_Inr:
  assumes "replyCounts r = Inr (n, a, s)"
  shows "r = Inr (projr r)" "length (filter m_isReply (concat (sentLog (projr r)))) = n"
    "accepts (projr r) = a" "skips (projr r) = s"
  using assms by (cases r; auto simp: replyCounts_def)+

text \<open>
  C9, as the code has it. At the end of every run that returns, the messages logged with
  \<open>isReply = true\<close> are the reply-queue entries that \<open>shouldContinue\<close> accepted minus those
  of them that found no path and were skipped by \<open>if (!path) continue\<close>.
\<close>

theorem replies_logged_are_accepted_not_skipped:
  assumes "mainLoop cfg evs (initialSim cfg seed0 queues a mgr) = Inr st"
  shows "length (filter m_isReply (concat (sentLog st))) + skips st = accepts st"
  using mainLoop_balanced [OF assms initialSim_balanced]
  by (simp add: balanced_def repliesLogged_def)

theorem replies_logged_are_accepted_not_skipped_witness:
  "length (filter m_isReply (concat (sentLog (projr run_pair_reply)))) = 1
   \<and> skips (projr run_pair_reply) = 0 \<and> accepts (projr run_pair_reply) = 1"
proof -
  have c: "replyCounts run_pair_reply = Inr (1, 1, 0)" by code_simp
  note r = replyCounts_Inr [OF c]
  from replies_logged_are_accepted_not_skipped [OF r(1) [unfolded run_pair_reply_def start_def]]
  have "length (filter m_isReply (concat (sentLog (projr run_pair_reply))))
        + skips (projr run_pair_reply) = accepts (projr run_pair_reply)"
    by (simp add: run_pair_reply_def start_def)
  with r(3,4) show ?thesis by simp
qed

text \<open>
  On the line 0-1-2-3 with \<open>Hmax = 1\<close>, user 0 holds a reply to user 3. The thread
  accepts it, no path is found, nothing is logged: no reply in the log, one accept.
\<close>

theorem accepted_reply_skipped_counterexample:
  "replyCounts run_line_reply = Inr (0, 1, 1)"
  by code_simp

text \<open>
  C5. A thread is constructed with \<open>lastActive = 0\<close>; \<open>shouldContinue\<close> is false
  whenever \<open>t - lastActive > 10\<close>; and when the thread with key \<open>k\<close> does not exist at
  the start of a sub-epoch of an epoch after 10, the rest of the loop logs no reply of
  that thread.
\<close>

theorem thread_created_late_stays_silent:
  assumes "map_of (activeThreads st) k = None" "10 < se0 div 6"
    "foldE (subEpochStep cfg evs) [se0 ..< optT cfg * 6] st = Inr st'"
  shows "lastActive (newThread a b) = 0
         \<and> (\<forall>th t s. 10 < int t - int (lastActive th) \<longrightarrow> \<not> fst (shouldContinue th t s))
         \<and> threadReplies k st' = threadReplies k st"
proof -
  have "silent k (threadReplies k st) st"
    using assms(1) by (simp add: silent_def fresh_def)
  moreover have "\<forall>se \<in> set [se0 ..< optT cfg * 6]. 10 < se div 6"
  proof
    fix se assume "se \<in> set [se0 ..< optT cfg * 6]"
    then have "se0 \<le> se" by simp
    then have "se0 div 6 \<le> se div 6" by (rule div_le_mono)
    with assms(2) show "10 < se div 6" by simp
  qed
  ultimately have "silent k (threadReplies k st) st'"
    using late_epochs_silent [OF assms(3)] by blast
  then show ?thesis
    by (simp add: silent_def newThread_def shouldContinue_def)
qed

theorem thread_created_late_stays_silent_witness:
  "threadReplies (sortedPairKey 0 1) (projr run_late) = []
   \<and> map (\<lambda>q. length q) (replyQueue late_start) = [1, 0]
   \<and> map (\<lambda>q. length q) (replyQueue (projr run_late)) = [0, 0]"
proof -
  have r: "isl run_late = False" by code_simp
  have q: "map (\<lambda>q. length q) (replyQueue late_start) = [1, 0]"
    "map (\<lambda>q. length q) (replyQueue (projr run_late)) = [0, 0]" by code_simp+
  have a: "map_of (activeThreads late_start) (sortedPairKey 0 1) = None" by code_simp
  have b: "threadReplies (sortedPairKey 0 1) late_start = []" by code_simp
  have c: "(10::nat) < 66 div 6" by simp
  from thread_created_late_stays_silent [OF a c is_Inr [OF r, unfolded run_late_def]] b q
  show ?thesis by (simp add: run_late_def)
qed

subsection \<open>A send that finds no path\<close>



subsection \<open>The paths of logged messages\<close>












section \<open>Properties of the distribution of events\<close>

lemma rng_next_range: "- 2147483646 \<le> rng_next s \<and> rng_next s \<le> 2147483646"
  using smod_int_range [of 2147483647 "s * 16807"] by (simp add: rng_next_def)

lemma rng_out_any: "- 3 / 2 < rng_out (rng_next s) \<and> rng_out (rng_next s) < 1"
  using rng_next_range [of s] by (simp add: rng_out_def field_simps)

lemma gcd_multiplier: "gcd (16807::int) 2147483647 = 1"
  by code_simp

lemma rng_next_ok:
  assumes "rng_ok s"
  shows "rng_ok (rng_next s)"
proof -
  have pos: "0 \<le> s * 16807" using assms by (simp add: rng_ok_def)
  then have eq: "rng_next s = (s * 16807) mod 2147483647"
    by (simp add: rng_next_def smod_mod_positive)
  have "\<not> 2147483647 dvd s" using assms zdvd_not_zless [of s 2147483647] by (simp add: rng_ok_def)
  moreover have "coprime (2147483647::int) 16807"
    using gcd_multiplier by (simp add: coprime_iff_gcd_eq_1 gcd.commute)
  ultimately have "\<not> 2147483647 dvd s * 16807"
    by (simp add: coprime_dvd_mult_left_iff)
  then have "(s * 16807) mod 2147483647 \<noteq> 0" by (simp add: dvd_eq_mod_eq_0)
  moreover have "0 \<le> (s * 16807) mod 2147483647" "(s * 16807) mod 2147483647 < 2147483647"
    by simp_all
  ultimately show ?thesis by (simp add: rng_ok_def eq)
qed

lemma rng_out_ok:
  assumes "rng_ok s"
  shows "0 \<le> rng_out (rng_next s) \<and> rng_out (rng_next s) < 1"
  using rng_next_ok [OF assms] by (simp add: rng_ok_def rng_out_def field_simps)

lemma jitter_ok:
  assumes "rng_ok s"
  shows "- 1 \<le> \<lfloor>(rng_out (rng_next s) - 1/2) * 2\<rfloor>"
proof -
  have "of_int (- 1) \<le> (rng_out (rng_next s) - 1/2) * 2"
    using rng_out_ok [OF assms] by simp
  then show ?thesis by (simp only: le_floor_iff)
qed

lemma jitter_any: "- 4 \<le> \<lfloor>(rng_out (rng_next s) - 1/2) * 2\<rfloor>"
proof -
  have "of_int (- 4) \<le> (rng_out (rng_next s) - 1/2) * 2"
    using rng_out_any [of s] by simp
  then show ?thesis by (simp only: le_floor_iff)
qed

lemma base_late:
  assumes "of_nat k * dayMs \<le> t"
  shows "int k * int n \<le> \<lfloor>(t / dayMs) * of_nat n\<rfloor>"
proof -
  have d: "0 < dayMs" by (simp add: dayMs_def)
  from assms d have "of_nat k \<le> t / dayMs" by (simp add: le_divide_eq)
  then have "of_nat k * of_nat n \<le> (t / dayMs) * of_nat n"
    by (rule mult_right_mono) simp
  then show ?thesis by (simp add: le_floor_iff)
qed

lemma place_late:
  assumes n: "0 < n" and len: "length bs = n" and late: "dayMs \<le> ev_t ev"
    and gen: "rng_ok s \<or> 4 * dayMs \<le> ev_t ev"
  shows "place n (bs, s) ev = Inr (bs[n - 1 := bs ! (n - 1) @ [ev_userId ev]], rng_next s)"
proof -
  define base where "base = \<lfloor>(ev_t ev / dayMs) * of_nat n\<rfloor>"
  define jitter where "jitter = \<lfloor>(rng_out (rng_next s) - 1/2) * 2\<rfloor>"
  have "int n - 1 \<le> base + jitter"
  proof (cases "rng_ok s")
    case True
    from base_late [of 1 "ev_t ev" n] late have "int n \<le> base" by (simp add: base_def)
    moreover have "- 1 \<le> jitter" unfolding jitter_def by (rule jitter_ok [OF True])
    ultimately show ?thesis by linarith
  next
    case False
    with gen have "of_nat 4 * dayMs \<le> ev_t ev" by simp
    from base_late [OF this, of n] have "4 * int n \<le> base" by (simp add: base_def)
    moreover have "- 4 \<le> jitter" unfolding jitter_def by (rule jitter_any)
    ultimately show ?thesis using n by linarith
  qed
  then have se: "nat (max 0 (min (int n - 1) (base + jitter))) = n - 1"
    using n by (simp add: min_def max_def)
  show ?thesis
    unfolding place_def rng_def Let_def split_conv fst_conv snd_conv
      base_def [symmetric] jitter_def [symmetric] se
    using n len by simp
qed

lemma place_last:
  assumes n: "0 < n" and late: "dayMs \<le> ev_t ev"
    and gen: "rng_ok s \<or> 4 * dayMs \<le> ev_t ev"
  shows "place n (lastBucket n ids, s) ev = Inr (lastBucket n (ids @ [ev_userId ev]), rng_next s)"
proof -
  have len: "length (lastBucket n ids) = n" using n by (simp add: lastBucket_def)
  have upd: "(lastBucket n ids)[n - 1 := lastBucket n ids ! (n - 1) @ [x]] = lastBucket n (ids @ [x])" for x
    by (simp add: lastBucket_def nth_append list_update_append)
  show ?thesis
    unfolding place_late [OF n len late gen] upd ..
qed

lemma distribute_last:
  assumes "0 < n" "\<forall>ev \<in> set events. dayMs \<le> ev_t ev"
    "rng_ok s \<or> (\<forall>ev \<in> set events. 4 * dayMs \<le> ev_t ev)"
  shows "foldE (place n) events (lastBucket n ids, s)
         = Inr (lastBucket n (ids @ map ev_userId events), (rng_next ^^ length events) s)"
  using assms
proof (induction events arbitrary: ids s)
  case Nil
  then show ?case by simp
next
  case (Cons ev events)
  have g: "rng_ok s \<or> 4 * dayMs \<le> ev_t ev" using Cons.prems(3) by auto
  have p: "place n (lastBucket n ids, s) ev = Inr (lastBucket n (ids @ [ev_userId ev]), rng_next s)"
    by (rule place_last [OF Cons.prems(1) _ g]) (use Cons.prems(2) in simp)
  have g': "rng_ok (rng_next s) \<or> (\<forall>ev \<in> set events. 4 * dayMs \<le> ev_t ev)"
    using Cons.prems(3) rng_next_ok by auto
  have "foldE (place n) events (lastBucket n (ids @ [ev_userId ev]), rng_next s)
        = Inr (lastBucket n ((ids @ [ev_userId ev]) @ map ev_userId events),
               (rng_next ^^ length events) (rng_next s))"
    by (rule Cons.IH [OF Cons.prems(1) _ g']) (use Cons.prems(2) in simp)
  then show ?case by (simp add: p funpow_swap1)
qed

lemma offsets_late:
  assumes "\<forall>ev \<in> set (fst acc). b \<le> ev_t ev" "b + 3/2 * hl \<le> hourStart" "0 \<le> hl"
  shows "\<forall>ev \<in> set (fst (offsets k userId hourStart hl acc)). b \<le> ev_t ev"
  using assms(1)
proof (induction k arbitrary: acc)
  case 0
  then show ?case by (cases acc) simp
next
  case (Suc k)
  obtain events x where acc: "acc = (events, x)" by (cases acc)
  have "- 3 / 2 * hl \<le> rng_out (rng_next x) * hl"
    using rng_out_any [of x] assms(3) by (intro mult_right_mono) simp_all
  with assms(2) have "b \<le> hourStart + rng_out (rng_next x) * hl" by simp
  with Suc.prems have "\<forall>ev \<in> set (fst (events @ [\<lparr> ev_userId = userId, ev_t = hourStart + rng_out (rng_next x) * hl \<rparr>], rng_next x)). b \<le> ev_t ev"
    by (simp add: acc)
  from Suc.IH [OF this] show ?case by (simp add: acc rng_def)
qed

lemma userHour_late:
  assumes "\<forall>ev \<in> set (fst acc). b \<le> ev_t ev" "b + 3/2 * hl \<le> hourStart" "0 \<le> hl"
  shows "\<forall>ev \<in> set (fst (userHour rates mult hourStart hl userId acc)). b \<le> ev_t ev"
proof -
  have "\<forall>ev \<in> set (fst (offsets k userId hourStart hl (fst acc, x))). b \<le> ev_t ev" for k x
    by (rule offsets_late [OF _ assms(2,3)]) (use assms(1) in simp)
  with assms(1) show ?thesis
    by (simp add: userHour_def Let_def split_beta del: offsets.simps)
qed

lemma fold_late:
  assumes "\<And>x acc. x \<in> set xs \<Longrightarrow> \<forall>ev \<in> set (fst acc). b \<le> ev_t ev
             \<Longrightarrow> \<forall>ev \<in> set (fst (f x acc)). b \<le> ev_t ev"
    "\<forall>ev \<in> set (fst acc). b \<le> ev_t ev"
  shows "\<forall>ev \<in> set (fst (fold f xs acc)). (b::rat) \<le> ev_t ev"
  using assms
proof (induction xs arbitrary: acc)
  case Nil
  then show ?case by simp
next
  case (Cons x xs)
  have "\<forall>ev \<in> set (fst (f x acc)). b \<le> ev_t ev"
    by (rule Cons.prems(1)) (simp_all add: Cons.prems(2))
  moreover have "\<And>y acc. y \<in> set xs \<Longrightarrow> \<forall>ev \<in> set (fst acc). b \<le> ev_t ev
             \<Longrightarrow> \<forall>ev \<in> set (fst (f y acc)). b \<le> ev_t ev"
    by (rule Cons.prems(1)) simp_all
  ultimately have "\<forall>ev \<in> set (fst (fold f xs (f x acc))). b \<le> ev_t ev"
    by (rule Cons.IH [rotated])
  then show ?case by simp
qed

lemma oneHour_late:
  assumes "\<forall>ev \<in> set (fst acc). b \<le> ev_t ev" "b + 3/2 * hl \<le> t0" "0 \<le> hl"
  shows "\<forall>ev \<in> set (fst (oneHour rates t0 hl hour acc)). b \<le> ev_t ev"
proof -
  have "0 \<le> of_nat hour * hl" using assms(3) by simp
  with assms(2) have h: "b + 3/2 * hl \<le> t0 + of_nat hour * hl" by simp
  show ?thesis unfolding oneHour_def Let_def
    by (rule fold_late [OF userHour_late [OF _ h assms(3)] assms(1)])
qed

lemma generateEventsForHours_late:
  assumes "b + 3/2 * hl \<le> t0" "0 \<le> hl"
  shows "\<forall>ev \<in> set (fst (generateEventsForHours rates hours t0 hl x)). b \<le> ev_t ev"
proof -
  have "\<forall>ev \<in> set (fst (fold (oneHour rates t0 hl) [0 ..< hours] ([], x))). b \<le> ev_t ev"
    by (rule fold_late [OF oneHour_late [OF _ assms]]) simp_all
  then show ?thesis by (simp add: generateEventsForHours_def split_beta)
qed

lemma foldE_append:
  "foldE f (xs @ ys) s = (case foldE f xs s of Inl e \<Rightarrow> Inl e | Inr s' \<Rightarrow> foldE f ys s')"
  by (induction xs arbitrary: s) (simp_all split: sum.splits)

lemma place_Inr:
  assumes "place n (bs, s) ev = Inr (bs', s')"
  shows "length bs' = length bs" "s' = rng_next s"
  using assms by (auto simp: place_def rng_def Let_def split: if_splits)

lemma distribute_keeps:
  assumes "foldE (place n) events (bs, s) = Inr (bs', s')" "length bs = n" "rng_ok s"
  shows "length bs' = n \<and> rng_ok s'"
proof -
  have "(\<lambda>p. length (fst p) = n \<and> rng_ok (snd p)) (bs', s')"
    using assms(1)
  proof (rule foldE_inv [where P = "\<lambda>p. length (fst p) = n \<and> rng_ok (snd p)"])
    show "length (fst (bs, s)) = n \<and> rng_ok (snd (bs, s))" using assms(2,3) by simp
  next
    fix p ev p'
    assume a: "length (fst p) = n \<and> rng_ok (snd p)" "place n p ev = Inr p'"
    obtain b1 s1 b2 s2 where p: "p = (b1, s1)" "p' = (b2, s2)" by (cases p, cases p')
    from place_Inr [OF a(2) [unfolded p]] a(1) rng_next_ok [of s1]
    show "length (fst p') = n \<and> rng_ok (snd p')" by (simp add: p)
  qed
  then show ?thesis by simp
qed

text \<open>
  C4, as the code has it. With at least one sub-epoch and the seed of \<open>run\<close> in the range
  \<open>1 .. 2147483646\<close> of the generator (so that \<open>rng()\<close> lies in \<open>[0, 1)\<close> and the jitter is
  -1 or 0): whatever events were distributed before it, an event with \<open>t\<close> at least \<open>dayMs\<close>
  is pushed on the last bucket; and when every event is that late, the result is the list of
  all user ids, in the order of the events, in the last bucket. The events of
  \<open>generateEventsForHours\<close> with \<open>epochStartMs = Date.now()\<close>, five days or more after the
  epoch, are all put in the last bucket, whatever the seeds.
\<close>

theorem late_events_fill_the_last_bucket:
  assumes "0 < T * subEpochsPerHour"
  shows "(rng_ok seed \<and> dayMs \<le> ev_t ev
          \<and> distributeEventsToSubEpochs before T subEpochsPerHour seed = Inr (buckets, seed1)
           \<longrightarrow> distributeEventsToSubEpochs (before @ [ev]) T subEpochsPerHour seed
               = Inr (buckets[T * subEpochsPerHour - 1 :=
                        buckets ! (T * subEpochsPerHour - 1) @ [ev_userId ev]], rng_next seed1))
       \<and> ((\<forall>ev \<in> set events. dayMs \<le> ev_t ev) \<and> rng_ok seed
           \<longrightarrow> distributeEventsToSubEpochs events T subEpochsPerHour seed
               = Inr (lastBucket (T * subEpochsPerHour) (map ev_userId events),
                      (rng_next ^^ length events) seed))
       \<and> (5 * dayMs \<le> now \<and> events = fst (generateEventsForHours userRates hours now (60 * 60 * 1000) x)
           \<longrightarrow> distributeEventsToSubEpochs events T subEpochsPerHour seed
               = Inr (lastBucket (T * subEpochsPerHour) (map ev_userId events),
                      (rng_next ^^ length events) seed))"
proof -
  let ?n = "T * subEpochsPerHour"
  have r: "replicate n [] = lastBucket n []" if "0 < n" for n
    using that by (cases n) (simp_all add: lastBucket_def replicate_append_same)
  have one: "distributeEventsToSubEpochs (before @ [ev]) T subEpochsPerHour seed
               = Inr (buckets[?n - 1 := buckets ! (?n - 1) @ [ev_userId ev]], rng_next seed1)"
    if a: "rng_ok seed \<and> dayMs \<le> ev_t ev
          \<and> distributeEventsToSubEpochs before T subEpochsPerHour seed = Inr (buckets, seed1)"
  proof -
    from a have f: "foldE (place ?n) before (replicate ?n [], seed) = Inr (buckets, seed1)"
      by (simp add: distributeEventsToSubEpochs_def Let_def)
    from distribute_keeps [OF f] a have k: "length buckets = ?n" "rng_ok seed1" by simp_all
    have "place ?n (buckets, seed1) ev
          = Inr (buckets[?n - 1 := buckets ! (?n - 1) @ [ev_userId ev]], rng_next seed1)"
      by (rule place_late [OF assms k(1)]) (use a k(2) in simp_all)
    then show ?thesis
      by (simp add: distributeEventsToSubEpochs_def Let_def foldE_append f)
  qed
  have all: "distributeEventsToSubEpochs events T subEpochsPerHour seed
               = Inr (lastBucket ?n (map ev_userId events), (rng_next ^^ length events) seed)"
    if "(\<forall>ev \<in> set events. dayMs \<le> ev_t ev) \<and> rng_ok seed"
    using that distribute_last [OF assms, of events seed "[]"]
    by (simp add: distributeEventsToSubEpochs_def Let_def r [OF assms])
  have gen: "distributeEventsToSubEpochs events T subEpochsPerHour seed
               = Inr (lastBucket ?n (map ev_userId events), (rng_next ^^ length events) seed)"
    if a: "5 * dayMs \<le> now \<and> events = fst (generateEventsForHours userRates hours now (60 * 60 * 1000) x)"
  proof -
    have "4 * dayMs + 3/2 * (60 * 60 * 1000) \<le> now" using a by (simp add: dayMs_def)
    from generateEventsForHours_late [OF this, of userRates hours x] a
    have l4: "\<forall>ev \<in> set events. 4 * dayMs \<le> ev_t ev" by simp
    have "0 \<le> dayMs" by (simp add: dayMs_def)
    with l4 have l1: "\<forall>ev \<in> set events. dayMs \<le> ev_t ev" by auto
    show ?thesis
      using distribute_last [OF assms l1, of seed "[]"] l4
      by (simp add: distributeEventsToSubEpochs_def Let_def r [OF assms])
  qed
  from one all gen show ?thesis by blast
qed

text \<open>
  After an event at half a day, put in bucket 2 of 6, the event of user 7 at exactly one day
  is pushed on bucket 5; the two events that \<open>generateEventsForHours\<close> gives for one user
  and one hour are both put in bucket 5.
\<close>

theorem late_events_fill_the_last_bucket_witness:
  "distributeEventsToSubEpochs
     [\<lparr> ev_userId = 3, ev_t = dayMs / 2 \<rparr>, \<lparr> ev_userId = 7, ev_t = dayMs \<rparr>] 1 6 42
   = Inr ([[], [], [3], [], [], [7]], 1126542223)
   \<and> distributeEventsToSubEpochs
     (fst (generateEventsForHours [100] 1 1700000000000 (60 * 60 * 1000) (makeRNG 42))) 1 6 42
   = Inr ([[], [], [], [], [], [0, 0]], 1126542223)"
proof -
  let ?evs = "fst (generateEventsForHours [100] 1 1700000000000 (60 * 60 * 1000) (makeRNG 42))"
  let ?early = "\<lparr> ev_userId = 3, ev_t = dayMs / 2 \<rparr>"
  let ?late = "\<lparr> ev_userId = 7, ev_t = dayMs \<rparr>"
  have e: "?evs = [\<lparr>ev_userId = 0, ev_t = 202818012988868400000 / 119304647\<rparr>,
                   \<lparr>ev_userId = 0, ev_t = 202818215762001600000 / 119304647\<rparr>]"
    by code_simp
  have h0: "0 < (1::nat) * 6" by simp
  have b: "distributeEventsToSubEpochs [?early] 1 6 42 = Inr ([[], [], [3], [], [], []], 705894)"
    by code_simp
  have h1: "rng_ok 42 \<and> dayMs \<le> ev_t ?late
            \<and> distributeEventsToSubEpochs [?early] 1 6 42 = Inr ([[], [], [3], [], [], []], 705894)"
    using b by (simp add: rng_ok_def)
  have h2: "(\<forall>ev \<in> set ?evs. dayMs \<le> ev_t ev) \<and> rng_ok 42"
    unfolding e by (simp add: dayMs_def rng_ok_def)
  have h3: "5 * dayMs \<le> 1700000000000 \<and> ?evs = ?evs" by (simp add: dayMs_def)
  have v: "lastBucket (1 * 6) (map ev_userId ?evs) = [[], [], [], [], [], [0, 0]]"
    unfolding e by (simp add: lastBucket_def numeral_eq_Suc)
  have w: "(rng_next ^^ length ?evs) 42 = 1126542223" "rng_next 705894 = 1126542223"
    unfolding e by (simp_all add: rng_next_def signed_modulo_int_def)
  have u: "[[], [], [3], [], [], []][1 * 6 - 1 := [[], [], [3], [], [], []] ! (1 * 6 - 1) @ [ev_userId ?late]]
           = [[], [], [3::nat], [], [], [7]]"
    by simp
  note t = late_events_fill_the_last_bucket [OF h0, of 42 ?late "[?early]" "[[], [], [3], [], [], []]"
             705894 ?evs 1700000000000 "[100]" 1 "makeRNG 42"]
  from t h1 have "distributeEventsToSubEpochs ([?early] @ [?late]) 1 6 42
        = Inr ([[], [], [3], [], [], []][1 * 6 - 1 := [[], [], [3], [], [], []] ! (1 * 6 - 1) @ [ev_userId ?late]],
               rng_next 705894)"
    by blast
  then have one: "distributeEventsToSubEpochs [?early, ?late] 1 6 42
        = Inr ([[], [], [3], [], [], [7]], 1126542223)"
    unfolding u w by simp
  from t h2 h3 have "distributeEventsToSubEpochs ?evs 1 6 42
        = Inr (lastBucket (1 * 6) (map ev_userId ?evs), (rng_next ^^ length ?evs) 42)"
    by blast
  then have two: "distributeEventsToSubEpochs ?evs 1 6 42 = Inr ([[], [], [], [], [], [0, 0]], 1126542223)"
    unfolding v w .
  from one two show ?thesis by (rule conjI)
qed

text \<open>
  \<open>run\<close> does not bring its seed into the range of the generator. With the seed 0 the
  generator returns \<open>-1/2147483646\<close> for ever and the jitter is -2: an event at exactly
  \<open>dayMs\<close>, and an event one hour later, are put in bucket 4 of 6, before the last one.
\<close>

theorem late_event_misses_last_bucket_counterexample:
  "distributeEventsToSubEpochs [\<lparr> ev_userId = 7, ev_t = dayMs \<rparr>] 1 6 0
   = Inr ([[], [], [], [], [7], []], 0)
   \<and> distributeEventsToSubEpochs [\<lparr> ev_userId = 7, ev_t = dayMs + 60 * 60 * 1000 \<rparr>] 1 6 0
   = Inr ([[], [], [], [], [7], []], 0)"
  by code_simp

section \<open>What two runs of one configuration share\<close>

text \<open>
  \<open>Math.random\<close> is not seeded. Its values reach the run in \<open>pickWeighted\<close>, in the message
  ids and in the cover manager, and the adversary in the node order of \<open>_detectCommunities\<close>.
  The node order is read by the label passes only, and the labels by nothing else.
\<close>

lemma labels_last [simp]:
  "observed_update h0 (communityStructure_update k adv) = communityStructure_update k (observed_update h0 adv)"
  "delta_update h1 (communityStructure_update k adv) = communityStructure_update k (delta_update h1 adv)"
  "linkCounts_update h2 (communityStructure_update k adv) = communityStructure_update k (linkCounts_update h2 adv)"
  "sendEvents_update h3 (communityStructure_update k adv) = communityStructure_update k (sendEvents_update h3 adv)"
  "guesses_update h4 (communityStructure_update k adv) = communityStructure_update k (guesses_update h4 adv)"
  "contactLog_update h5 (communityStructure_update k adv) = communityStructure_update k (contactLog_update h5 adv)"
  "recipientHistory_update h6 (communityStructure_update k adv) = communityStructure_update k (recipientHistory_update h6 adv)"
  "activityLog_update h7 (communityStructure_update k adv) = communityStructure_update k (activityLog_update h7 adv)"
  "estimatedGraph_update h8 (communityStructure_update k adv) = communityStructure_update k (estimatedGraph_update h8 adv)"
  "relationshipStrengths_update h9 (communityStructure_update k adv) = communityStructure_update k (relationshipStrengths_update h9 adv)"
  "relationshipTiers_update h10 (communityStructure_update k adv) = communityStructure_update k (relationshipTiers_update h10 adv)"
  "confidenceScores_update h11 (communityStructure_update k adv) = communityStructure_update k (confidenceScores_update h11 adv)"
  by (cases adv; simp)+


lemma reads_labels [simp]:
  "sumCountsOverWindow (adv\<lparr> communityStructure := c \<rparr>) = sumCountsOverWindow adv"
  "computeIntersectionScore (adv\<lparr> communityStructure := c \<rparr>) = computeIntersectionScore adv"
  "countDirectedTraffic (adv\<lparr> communityStructure := c \<rparr>) = countDirectedTraffic adv"
  "volumeByEpoch (adv\<lparr> communityStructure := c \<rparr>) = volumeByEpoch adv"
  "candidateSet (adv\<lparr> communityStructure := c \<rparr>) = candidateSet adv"
  "nodePairs (adv\<lparr> communityStructure := c \<rparr>) = nodePairs adv"
  by (simp_all add: fun_eq_iff sumCountsOverWindow_def computeIntersectionScore_def
      countDirectedTraffic_def volumeByEpoch_def candidateSet_def nodePairs_def)

lemma analyzeRelationship_labels [simp]:
  "analyzeRelationship (adv\<lparr> communityStructure := c \<rparr>) = analyzeRelationship adv"
  by (simp add: fun_eq_iff analyzeRelationship_def)

lemma score_labels [simp]:
  "score (adv\<lparr> communityStructure := c \<rparr>) = score adv"
  by (simp add: fun_eq_iff score_def)







lemma weightOf_cfg [simp]: "weightOf (cfg\<lparr> shuffle := sh \<rparr>) = weightOf cfg"
  by (simp add: fun_eq_iff weightOf_def Let_def cong: if_cong sum.case_cong option.case_cong prod.case_cong)

lemma logMessage_cfg [simp]: "logMessage (cfg\<lparr> shuffle := sh \<rparr>) = logMessage cfg"
  by (simp add: fun_eq_iff logMessage_def Let_def cong: if_cong sum.case_cong option.case_cong prod.case_cong)

lemma recordReal_cfg [simp]: "recordReal (cfg\<lparr> shuffle := sh \<rparr>) = recordReal cfg"
  by (simp add: fun_eq_iff recordReal_def Let_def cong: if_cong sum.case_cong option.case_cong prod.case_cong)

lemma enqueueReply_cfg [simp]: "enqueueReply (cfg\<lparr> shuffle := sh \<rparr>) = enqueueReply cfg"
  by (simp add: fun_eq_iff enqueueReply_def Let_def cong: if_cong sum.case_cong option.case_cong prod.case_cong)

lemma emitReply_cfg [simp]: "emitReply (cfg\<lparr> shuffle := sh \<rparr>) = emitReply cfg"
  by (simp add: fun_eq_iff emitReply_def Let_def cong: if_cong sum.case_cong option.case_cong prod.case_cong)

lemma replyEntry_cfg [simp]: "replyEntry (cfg\<lparr> shuffle := sh \<rparr>) = replyEntry cfg"
  by (simp add: fun_eq_iff replyEntry_def Let_def cong: if_cong sum.case_cong option.case_cong prod.case_cong)

lemma userReplies_cfg [simp]: "userReplies (cfg\<lparr> shuffle := sh \<rparr>) = userReplies cfg"
  by (simp add: fun_eq_iff userReplies_def Let_def cong: if_cong sum.case_cong option.case_cong prod.case_cong)

lemma newSend_cfg [simp]: "newSend (cfg\<lparr> shuffle := sh \<rparr>) = newSend cfg"
  by (simp add: fun_eq_iff newSend_def Let_def cong: if_cong sum.case_cong option.case_cong prod.case_cong)

lemma injectCover_cfg [simp]: "injectCover (cfg\<lparr> shuffle := sh \<rparr>) = injectCover cfg"
  by (simp add: fun_eq_iff injectCover_def Let_def cong: if_cong sum.case_cong option.case_cong prod.case_cong)

lemma coverStep_cfg [simp]: "coverStep (cfg\<lparr> shuffle := sh \<rparr>) = coverStep cfg"
  by (simp add: fun_eq_iff coverStep_def Let_def cong: if_cong sum.case_cong option.case_cong prod.case_cong)

lemma noiseEdge_cfg [simp]: "noiseEdge (cfg\<lparr> shuffle := sh \<rparr>) = noiseEdge cfg"
  by (simp add: fun_eq_iff noiseEdge_def Let_def cong: if_cong sum.case_cong option.case_cong prod.case_cong)

lemma contact_cfg [simp]: "contact (cfg\<lparr> shuffle := sh \<rparr>) = contact cfg"
  by (simp add: fun_eq_iff contact_def Let_def cong: if_cong sum.case_cong option.case_cong prod.case_cong)

lemma withLabels_reads [simp]:
  "rngSeed (withLabels c st) = rngSeed st"
  "mrDraws (withLabels c st) = mrDraws st"
  "replyQueue (withLabels c st) = replyQueue st"
  "activeThreads (withLabels c st) = activeThreads st"
  "pathDiversityTracker (withLabels c st) = pathDiversityTracker st"
  "futureLinkCounts (withLabels c st) = futureLinkCounts st"
  "sentLog (withLabels c st) = sentLog st"
  "coverTrafficMgr (withLabels c st) = coverTrafficMgr st"
  "accepts (withLabels c st) = accepts st"
  "skips (withLabels c st) = skips st"
  "advState (withLabels c st) = (advState st)\<lparr> communityStructure := c \<rparr>"
  by (simp_all add: withLabels_def)

lemma withLabels_last [simp]:
  "rngSeed_update h0 (withLabels c st) = withLabels c (rngSeed_update h0 st)"
  "mrDraws_update h1 (withLabels c st) = withLabels c (mrDraws_update h1 st)"
  "replyQueue_update h2 (withLabels c st) = withLabels c (replyQueue_update h2 st)"
  "activeThreads_update h3 (withLabels c st) = withLabels c (activeThreads_update h3 st)"
  "pathDiversityTracker_update h4 (withLabels c st) = withLabels c (pathDiversityTracker_update h4 st)"
  "futureLinkCounts_update h5 (withLabels c st) = withLabels c (futureLinkCounts_update h5 st)"
  "sentLog_update h6 (withLabels c st) = withLabels c (sentLog_update h6 st)"
  "coverTrafficMgr_update h7 (withLabels c st) = withLabels c (coverTrafficMgr_update h7 st)"
  "accepts_update h8 (withLabels c st) = withLabels c (accepts_update h8 st)"
  "skips_update h9 (withLabels c st) = withLabels c (skips_update h9 st)"
  "withLabels c (withLabels c' st) = withLabels c st"
  by (simp_all add: withLabels_def)












lemma unlabelled_withLabels [simp]:
  "unlabelled (withLabels c st) = unlabelled st"
  by (simp add: unlabelled_def)










end
